theory Spec2Isabelle
  imports Main "HOL-Library.Word"
begin

unbundle bit_operations_syntax

section \<open>Common types\<close>

text \<open>
  Binary data (ArrayBuffer, Blob, Uint8Array contents) is a list of bytes. Byte lengths,
  offsets, sequence counters and sizes are JavaScript numbers holding non-negative integers
  below \<open>2 ^ 53\<close>; they are modelled as \<open>nat\<close>. Only the two header fields of a
  file frame are fixed-width (unsigned 32 bit, big-endian); their wrap-around is written out.
\<close>

type_synonym byte = "8 word"
type_synonym bytes = "byte list"

section \<open>Rendezvous client (src/services/signaling.js)\<close>

text \<open>
  A value found in a bus packet. \<open>JObj\<close> stands for any object; numbers are integers
  here (NaN, which is falsy like 0, is left out).
\<close>

datatype jsval = JUndefined | JNull | JBool bool | JNum int | JStr string | JObj

fun truthy :: "jsval \<Rightarrow> bool" where
  "truthy JUndefined = False"
| "truthy JNull = False"
| "truthy (JBool b) = b"
| "truthy (JNum n) = (n \<noteq> 0)"
| "truthy (JStr s) = (s \<noteq> [])"
| "truthy JObj = True"

record payload =
  senderId :: jsval
  dataStr :: jsval

text \<open>
  The part of a \<open>SignalingService\<close> the broadcast callback reads: its \<open>clientId\<close>,
  whether an \<open>onMessage\<close> callback is installed, and (as the observable effect) the
  list of values handed to \<open>onMessage\<close> so far.
\<close>

record signaling =
  clientId :: string
  onMessage :: bool
  inbox :: "jsval list"

text \<open>
  The callback registered with \<open>.on("broadcast", {event: "msg"}, ...)\<close>. The packet's
  payload may be missing (\<open>packet?.payload\<close>), in which case both fields read as
  undefined. \<open>senderId === this.clientId\<close> is strict equality with a string.
\<close>

definition onBroadcast :: "signaling \<Rightarrow> payload option \<Rightarrow> signaling" where
  "onBroadcast s packet =
     (let sid = (case packet of None \<Rightarrow> JUndefined | Some p \<Rightarrow> senderId p);
          d = (case packet of None \<Rightarrow> JUndefined | Some p \<Rightarrow> dataStr p)
      in if \<not> truthy d then s
         else if truthy sid \<and> sid = JStr (clientId s) then s
         else if onMessage s then s\<lparr>inbox := inbox s @ [d]\<rparr>
         else s)"

text \<open>
  \<open>makeClientId\<close>: a UUID when \<open>crypto.randomUUID\<close> is available, otherwise a random
  base-36 string followed by the base-36 clock. The random sources are the arguments.
\<close>

definition makeClientId :: "string option \<Rightarrow> string \<Rightarrow> string \<Rightarrow> string" where
  "makeClientId uuid rnd clock = (case uuid of Some u \<Rightarrow> u | None \<Rightarrow> rnd @ clock)"

section \<open>Frame reception (PeerClient.handleFileFrame, src/webrtc/peerClient.js)\<close>

definition FILE_FRAME_HEADER_BYTES :: nat where
  "FILE_FRAME_HEADER_BYTES = 8"

text \<open>
  What a data channel can hand to \<open>onmessage\<close>: nothing (null or undefined), a string, a
  Blob, an ArrayBuffer, a typed-array view (of which only the viewed bytes matter), or
  some other object.
\<close>

datatype frameData =
  NoData | TextData string | BlobData bytes | BufferData bytes | ViewData bytes | OtherData

text \<open>
  \<open>DataView.getUint32(off)\<close>, big-endian by default. JavaScript raises a RangeError when
  fewer than four bytes remain; the handler only calls it on buffers of at least eight bytes
  at offsets 0 and 4.
\<close>

definition getUint32 :: "bytes \<Rightarrow> nat \<Rightarrow> nat" where
  "getUint32 buf off = foldl (\<lambda>acc b. acc * 256 + unat b) 0 (take 4 (drop off buf))"

text \<open>The liveness fields of the PeerClient touched by \<open>markPeerActivity\<close>.\<close>

record activity =
  lastPeerActivityAt :: nat
  peerTimedOut :: bool

text \<open>What the PeerClient reports upwards: status changes and \<open>onData\<close> messages.\<close>

datatype peerEvent =
  StatusChange string
| FileChunk string nat bytes

definition markPeerActivity :: "nat \<Rightarrow> activity \<Rightarrow> activity \<times> peerEvent list" where
  "markPeerActivity now a =
     (a\<lparr>lastPeerActivityAt := now, peerTimedOut := False\<rparr>,
      if peerTimedOut a then [StatusChange ''connected''] else [])"

text \<open>
  The header parse, written twice in the source (Blob fast path and ArrayBuffer path) with
  the same arithmetic: \<open>len = declaredLen && declaredLen <= payloadLen ? declaredLen :
  payloadLen\<close>, then the payload is the \<open>len\<close> bytes after the header.
\<close>

definition frameSeq :: "bytes \<Rightarrow> nat" where
  "frameSeq buf = getUint32 buf 0"

definition framePayload :: "bytes \<Rightarrow> bytes" where
  "framePayload buf =
     (let declaredLen = getUint32 buf 4;
          payloadLen = max 0 (length buf - FILE_FRAME_HEADER_BYTES);
          len = (if declaredLen \<noteq> 0 \<and> declaredLen \<le> payloadLen then declaredLen else payloadLen)
      in take len (drop FILE_FRAME_HEADER_BYTES buf))"

definition emitFileChunk :: "nat \<Rightarrow> activity \<Rightarrow> string \<Rightarrow> bytes \<Rightarrow> activity \<times> peerEvent list" where
  "emitFileChunk now a sid buf =
     (let (a', evs) = markPeerActivity now a
      in (a', evs @ [FileChunk sid (frameSeq buf) (framePayload buf)]))"

text \<open>
  \<open>handleFileFrame(id, data)\<close>. \<open>hasArrayBuffer\<close> says whether Blobs offer
  \<open>arrayBuffer()\<close> (the fast path); without it a Blob is read whole and goes down the
  ArrayBuffer path. \<open>now\<close> is the clock read by \<open>markPeerActivity\<close>. The result is the
  new liveness state and the events raised; returning early raises none.
\<close>

definition handleFileFrame ::
  "bool \<Rightarrow> nat \<Rightarrow> activity \<Rightarrow> string \<Rightarrow> frameData \<Rightarrow> activity \<times> peerEvent list" where
  "handleFileFrame hasArrayBuffer now a sid data =
     (case data of
        NoData \<Rightarrow> (a, [])
      | TextData s \<Rightarrow> (a, [])
      | BlobData b \<Rightarrow>
          if length b < FILE_FRAME_HEADER_BYTES then (a, [])
          else if hasArrayBuffer then emitFileChunk now a sid b
          else if length b < FILE_FRAME_HEADER_BYTES then (a, [])
          else emitFileChunk now a sid b
      | BufferData b \<Rightarrow>
          if length b < FILE_FRAME_HEADER_BYTES then (a, []) else emitFileChunk now a sid b
      | ViewData b \<Rightarrow>
          if length b < FILE_FRAME_HEADER_BYTES then (a, []) else emitFileChunk now a sid b
      | OtherData \<Rightarrow> (a, []))"

text \<open>The bytes of a binary message, for stating properties of all three binary forms.\<close>

fun binaryBytes :: "frameData \<Rightarrow> bytes option" where
  "binaryBytes (BlobData b) = Some b"
| "binaryBytes (BufferData b) = Some b"
| "binaryBytes (ViewData b) = Some b"
| "binaryBytes _ = None"

section \<open>Strings (JavaScript built-ins used by the source)\<close>

text \<open>
  JavaScript strings are modelled as lists of 8-bit code units. \<open>String.prototype.trim\<close>
  strips white space and line terminators from both ends; among the 8-bit code units these
  are tab, line feed, vertical tab, form feed, carriage return, space and no-break space.
\<close>

definition isJsSpace :: "char \<Rightarrow> bool" where
  "isJsSpace c = (of_char c \<in> {9, 10, 11, 12, 13, 32, 160 :: nat})"

definition trim :: "string \<Rightarrow> string" where
  "trim s = rev (dropWhile isJsSpace (rev (dropWhile isJsSpace s)))"

definition startsWith :: "string \<Rightarrow> string \<Rightarrow> bool" where
  "startsWith s p = (take (length p) s = p)"

definition endsWith :: "string \<Rightarrow> string \<Rightarrow> bool" where
  "endsWith s p = (length p \<le> length s \<and> drop (length s - length p) s = p)"

definition streamIdMatchesBase :: "string \<Rightarrow> string \<Rightarrow> bool" where
  "streamIdMatchesBase baseId streamId' =
     (let base = trim baseId; sid = trim streamId'
      in if base = [] \<or> sid = [] then False
         else sid = base \<or> startsWith sid (base @ '':''))"

section \<open>Receiver side of a file transfer (onPeerData and helpers)\<close>

text \<open>Control-channel messages of the file protocol, as handed to \<open>peer.send\<close>.\<close>

datatype ctrlMsg =
  FileMeta string string nat string nat
| FileAccept string
| FileAcceptAck string
| FileDone string
| FileCancel string string

text \<open>
  The state object created on \<open>file-meta\<close>. \<open>pendingChunks\<close> is a JavaScript Map: an
  association list in insertion order with distinct keys. \<open>writer\<close> says whether a
  stream writer is attached; \<open>writeQueue\<close> is what has been queued for it, in order (the
  asynchronous flusher \<open>flushFileWrites\<close> hands the queue to the writer front to back and
  is not modelled, nor are the fields that only drive the progress display). \<open>size_in\<close>
  is the size announced in \<open>file-meta\<close>. \<open>commitLog\<close> is an auxiliary variable: the
  \<open>(seq, data)\<close> pairs for which \<open>commitChunk\<close> was called, in call order.
\<close>

record incoming =
  id_in :: string
  streamId :: string
  streamCount :: nat
  name_in :: string
  size_in :: nat
  received :: nat
  expectedSeq :: nat
  pendingChunks :: "(nat \<times> bytes) list"
  needsAccept :: bool
  accepted :: bool
  acceptAcked :: bool
  acceptResendTimer :: bool
  cancelled :: bool
  chunks :: "bytes list option"
  writer :: bool
  writeQueue :: "bytes list"
  commitLog :: "(nat \<times> bytes) list"

text \<open>
  The receiving peer: \<open>peer.receiving\<close>, whether the control channel is open, the control
  messages sent so far and the stream prefixes passed to \<open>closeFileChannelsByPrefix\<close>.
  \<open>incomingFiles\<close> registers the object referenced by \<open>peer.receiving\<close> under its id
  (both are set by \<open>file-meta\<close> and both dropped by \<open>cancelIncomingFile\<close>); the
  model keeps that one object.
\<close>

record receiver =
  receiving :: "incoming option"
  dcOpen :: bool
  ctrlSent :: "ctrlMsg list"
  closedPrefixes :: "string list"

text \<open>The state object built by the \<open>file-meta\<close> branch of \<open>onPeerData\<close>.\<close>

definition newIncoming :: "string \<Rightarrow> string \<Rightarrow> nat \<Rightarrow> string \<Rightarrow> nat \<Rightarrow> incoming" where
  "newIncoming fid sid sc nm sz =
     \<lparr>id_in = fid, streamId = trim sid, streamCount = max 1 sc, name_in = nm, size_in = sz,
      received = 0, expectedSeq = 0, pendingChunks = [], needsAccept = True, accepted = False,
      acceptAcked = False, acceptResendTimer = False, cancelled = False, chunks = None,
      writer = False, writeQueue = [], commitLog = []\<rparr>"

definition onFileMeta :: "receiver \<Rightarrow> string \<Rightarrow> string \<Rightarrow> nat \<Rightarrow> string \<Rightarrow> nat \<Rightarrow> receiver" where
  "onFileMeta rx fid sid sc nm sz =
     (if receiving rx \<noteq> None then rx
      else if trim fid = [] then rx
      else rx\<lparr>receiving := Some (newIncoming (trim fid) sid sc nm sz)\<rparr>)"

text \<open>
  \<open>window.acceptFile\<close> on its successful path: the save-file picker returned a writer and
  the \<open>file-accept\<close> message went out on the open control channel.
\<close>

definition acceptFile :: "receiver \<Rightarrow> receiver" where
  "acceptFile rx =
     (case receiving rx of
        None \<Rightarrow> rx
      | Some st \<Rightarrow>
          if accepted st then rx
          else if \<not> dcOpen rx then rx\<lparr>receiving := Some (st\<lparr>writer := True, chunks := None\<rparr>)\<rparr>
          else rx\<lparr>receiving := Some (st\<lparr>writer := True, chunks := None, accepted := True,
                     acceptAcked := False, acceptResendTimer := True\<rparr>),
                  ctrlSent := ctrlSent rx @ [FileAccept (id_in st)]\<rparr>)"

definition cancelIncomingFile :: "receiver \<Rightarrow> string \<Rightarrow> bool \<Rightarrow> string \<Rightarrow> receiver" where
  "cancelIncomingFile rx fid notifyPeer reason =
     (let fileId = trim fid
      in if fileId = [] then rx
         else case receiving rx of
                None \<Rightarrow> rx
              | Some st \<Rightarrow>
                  if id_in st \<noteq> fileId then rx
                  else rx\<lparr>receiving := None,
                          ctrlSent := ctrlSent rx @
                            (if notifyPeer \<and> dcOpen rx then [FileCancel fileId reason] else []),
                          closedPrefixes := closedPrefixes rx @
                            (if streamId st \<noteq> [] then [streamId st] else [])\<rparr>)"

text \<open>
  \<open>commitChunk\<close>, the closure inside the \<open>file-chunk\<close> branch: an empty chunk is
  skipped, otherwise the data goes to the writer's queue (or to the in-memory list) and
  \<open>received\<close> grows by its length.
\<close>

definition commitChunk :: "incoming \<Rightarrow> bytes \<Rightarrow> incoming" where
  "commitChunk r d =
     (let chunkBytes = length d
      in if chunkBytes \<le> 0 then r
         else (let r1 = (if writer r then r\<lparr>writeQueue := writeQueue r @ [d]\<rparr>
                         else case chunks r of
                                Some cs \<Rightarrow> r\<lparr>chunks := Some (cs @ [d])\<rparr>
                              | None \<Rightarrow> r)
               in r1\<lparr>received := received r1 + chunkBytes\<rparr>))"

definition mapDelete :: "nat \<Rightarrow> (nat \<times> bytes) list \<Rightarrow> (nat \<times> bytes) list" where
  "mapDelete k m = filter (\<lambda>e. fst e \<noteq> k) m"

lemma mapDelete_shorter:
  "map_of m k = Some v \<Longrightarrow> length (mapDelete k m) < length m"
proof (induction m)
  case Nil
  then show ?case by simp
next
  case (Cons e m)
  then show ?case
    by (cases "fst e = k")
       (auto simp add: mapDelete_def less_Suc_eq_le intro: le_less_trans [OF length_filter_le])
qed

text \<open>
  One round of the drain loop: the body of \<open>while (r.pendingChunks.has(r.expectedSeq))\<close>,
  for the entry \<open>next = r.pendingChunks.get(r.expectedSeq)\<close>: delete the entry, commit
  it, advance \<open>expectedSeq\<close>.
\<close>

definition drainStep :: "incoming \<Rightarrow> bytes \<Rightarrow> incoming" where
  "drainStep r next =
     (commitChunk (r\<lparr>pendingChunks := mapDelete (expectedSeq r) (pendingChunks r)\<rparr>) next)
       \<lparr>expectedSeq := expectedSeq r + 1, commitLog := commitLog r @ [(expectedSeq r, next)]\<rparr>"

text \<open>
  The drain loop. It ends because every round removes an entry of the finite map.
\<close>

function drain :: "incoming \<Rightarrow> incoming" where
  "drain r =
     (case map_of (pendingChunks r) (expectedSeq r) of
        None \<Rightarrow> r
      | Some next \<Rightarrow> drain (drainStep r next))"
  by pat_completeness auto
termination
proof (relation "measure (\<lambda>r. length (pendingChunks r))")
  show "wf (measure (\<lambda>r. length (pendingChunks r)))" by simp
next
  fix r :: incoming and x2
  assume "map_of (pendingChunks r) (expectedSeq r) = Some x2"
  then have "length (mapDelete (expectedSeq r) (pendingChunks r)) < length (pendingChunks r)"
    by (rule mapDelete_shorter)
  then show "(drainStep r x2, r) \<in> measure (\<lambda>r. length (pendingChunks r))"
    by (simp add: drainStep_def commitChunk_def Let_def split: option.splits)
qed

declare drain.simps [simp del]

text \<open>
  The first chunk that gets past the guards also acknowledges the acceptance:
  \<open>if (!r.acceptAcked) { r.acceptAcked = true; clearInterval(r.acceptResendTimer) }\<close>.
\<close>

definition ackAccept :: "incoming \<Rightarrow> incoming" where
  "ackAccept r = (if \<not> acceptAcked r then r\<lparr>acceptAcked := True, acceptResendTimer := False\<rparr> else r)"

text \<open>
  The \<open>file-chunk\<close> branch of \<open>onPeerData\<close>, for a chunk \<open>(streamId, seq, data)\<close> as
  produced by \<open>handleFileFrame\<close> (so \<open>seq\<close> is a non-negative integer). The second
  component of the result is \<open>Some r\<close> exactly when the call reached the completion block
  (\<open>r.received >= r.size\<close>), with \<open>r\<close> the transfer object at that point; there the
  handler sends \<open>file-done\<close> through \<open>peer.send\<close>, which transmits when the control
  channel is open, and clears \<open>peer.receiving\<close>.
\<close>

definition onFileChunk ::
  "receiver \<Rightarrow> string \<Rightarrow> nat \<Rightarrow> bytes \<Rightarrow> receiver \<times> incoming option" where
  "onFileChunk rx sid seq chunk =
     (case receiving rx of
        None \<Rightarrow> (rx, None)
      | Some r \<Rightarrow>
          if cancelled r then (rx, None)
          else if needsAccept r \<and> \<not> accepted r then (rx, None)
          else if accepted r \<and> \<not> writer r then
            (cancelIncomingFile rx (id_in r) True ''Couldn't create the save file'', None)
          else
            (let r1 = ackAccept r;
                 sid' = trim sid
             in if streamId r1 \<noteq> [] \<and> sid' \<noteq> [] \<and> \<not> streamIdMatchesBase (streamId r1) sid'
                then (rx\<lparr>receiving := Some r1\<rparr>, None)
                else if seq < expectedSeq r1 then (rx\<lparr>receiving := Some r1\<rparr>, None)
                else if seq > expectedSeq r1 then
                  (rx\<lparr>receiving := Some
                       (if map_of (pendingChunks r1) seq \<noteq> None then r1
                        else r1\<lparr>pendingChunks := pendingChunks r1 @ [(seq, chunk)]\<rparr>)\<rparr>, None)
                else
                  (let r2 = drain ((commitChunk r1 chunk)
                                     \<lparr>expectedSeq := expectedSeq r1 + 1,
                                      commitLog := commitLog r1 @ [(seq, chunk)]\<rparr>)
                   in if received r2 \<ge> size_in r2
                      then (rx\<lparr>receiving := None,
                               ctrlSent := ctrlSent rx @
                                 (if dcOpen rx then [FileDone (id_in r2)] else [])\<rparr>, Some r2)
                      else (rx\<lparr>receiving := Some r2\<rparr>, None))))"

text \<open>
  Chunks arriving one after another (the PeerClient serialises them through
  \<open>_fileMsgChain\<close>), up to the call that completes the transfer.
\<close>

fun feedChunks :: "receiver \<Rightarrow> (string \<times> nat \<times> bytes) list \<Rightarrow> receiver \<times> incoming option" where
  "feedChunks rx [] = (rx, None)"
| "feedChunks rx ((sid, seq, d) # rest) =
     (case onFileChunk rx sid seq d of
        (rx', Some r) \<Rightarrow> (rx', Some r)
      | (rx', None) \<Rightarrow> feedChunks rx' rest)"

section \<open>Sender side: pacing and framing (sendFileChunks)\<close>

definition FILE_CHUNK_SIZE :: nat where
  "FILE_CHUNK_SIZE = 256 * 1024"

text \<open>
  \<open>getSendChunkSize(overheadBytes)\<close>; \<open>maxMsg\<close> is what \<open>getDcMaxMessageSize\<close> returns:
  the transport's maximum message size, or 0 when it is unknown.
\<close>

definition getSendChunkSize :: "nat \<Rightarrow> nat \<Rightarrow> nat" where
  "getSendChunkSize maxMsg overheadBytes =
     (let base = (if maxMsg \<noteq> 0 then min FILE_CHUNK_SIZE maxMsg else FILE_CHUNK_SIZE);
          overhead = max 0 overheadBytes
      in max 1 (base - overhead))"

text \<open>
  \<open>DC_BUFFER_HIGH_WATER_MARK\<close>, chosen from \<open>navigator.deviceMemory\<close>, given here in MiB
  (0 when unknown; the browser reports 0.25 to 8 GiB).
\<close>

definition dcHighWaterMark :: "nat \<Rightarrow> nat" where
  "dcHighWaterMark memMiB =
     (if memMiB \<ge> 8 * 1024 then 64 * 1024 * 1024
      else if memMiB \<ge> 4 * 1024 then 32 * 1024 * 1024
      else if memMiB > 0 \<and> memMiB < 2 * 1024 then 8 * 1024 * 1024
      else 16 * 1024 * 1024)"

definition minHighWaterMark :: "nat \<Rightarrow> nat" where
  "minHighWaterMark payloadChunkSize = max (1 * 1024 * 1024) (payloadChunkSize * 4)"

text \<open>
  What the pump observes each time it looks at its environment: the abort signal, the
  control channel, every file channel of \<open>channels\<close> (ready state and buffered amount),
  whether the clock is still before the deadline of the current time budget, what
  \<open>dc.send\<close> does if it is called now, and whether a wait that follows is cut short by an
  abort. The environment is free to answer anything; the pump's behaviour for every
  sequence of answers is its behaviour in every run.
\<close>

record chan =
  isOpen :: bool
  bufferedAmount :: nat

datatype sendOutcome = SendOk | SendQueueFull | SendOther

record obs =
  sigAborted :: bool
  ctrlOpen :: bool
  chans :: "chan list"
  inBudget :: bool
  sendResult :: sendOutcome
  waitAborted :: bool

text \<open>
  The pump's variables. \<open>sentFrames\<close> lists, for every \<open>dc.send\<close> that returned
  normally, the index of the channel and the bytes of the frame.
\<close>

record pump =
  offset :: nat
  seqNo :: nat
  rrIndex :: nat
  highWaterMark :: nat
  lowWaterMark :: nat
  sentFrames :: "(nat \<times> bytes) list"

datatype sendError =
  AbortError | ConnectionNotEstablished | FileChannelNotReady | ConnectionLost
| FileChannelClosed | SendFailed

text \<open>
  How a call of \<open>sendFileChunks\<close> stands after a given sequence of observations: it
  returned, it threw, or it is still running.
\<close>

datatype outcome = Done pump | Threw sendError pump | Pending pump

fun pumpOf :: "outcome \<Rightarrow> pump" where
  "pumpOf (Done p) = p"
| "pumpOf (Threw e p) = p"
| "pumpOf (Pending p) = p"

text \<open>\<open>DataView.setUint32(pos, v)\<close>: the value modulo \<open>2 ^ 32\<close>, big-endian.\<close>

definition setUint32 :: "nat \<Rightarrow> bytes" where
  "setUint32 v = [of_nat (v div 2 ^ 24), of_nat (v div 2 ^ 16), of_nat (v div 2 ^ 8), of_nat v]"

text \<open>\<open>new Blob([headerBuf, file.slice(offset, end)])\<close> with the header just written.\<close>

definition mkFrame :: "nat \<Rightarrow> bytes \<Rightarrow> nat \<Rightarrow> nat \<Rightarrow> bytes" where
  "mkFrame sq file off end' =
     setUint32 sq @ setUint32 (max 0 (end' - off)) @ take (end' - off) (drop off file)"

definition openChannels :: "chan list \<Rightarrow> chan list" where
  "openChannels cs = filter isOpen cs"

text \<open>\<open>hasBackpressureEverywhere\<close> for a non-empty set of open channels.\<close>

definition allFull :: "nat \<Rightarrow> chan list \<Rightarrow> bool" where
  "allFull high cs = (\<forall>dc \<in> set (openChannels cs). \<not> bufferedAmount dc < high)"

text \<open>
  \<open>pickChannel\<close>: round robin from \<open>rrIndex\<close> over the channels, the first open one
  below the high watermark; returns its index and the next \<open>rrIndex\<close>.
\<close>

definition pickChannel :: "nat \<Rightarrow> nat \<Rightarrow> chan list \<Rightarrow> (nat \<times> nat) option" where
  "pickChannel high rr cs =
     (let n = length cs
      in case find (\<lambda>idx. isOpen (cs ! idx) \<and> bufferedAmount (cs ! idx) < high)
                   (map (\<lambda>i. (rr + i) mod n) [0..<n]) of
           None \<Rightarrow> None
         | Some idx \<Rightarrow> Some (idx, (idx + 1) mod n))"

text \<open>
  The catch block for a full send queue: halve the high watermark down to the floor
  \<open>minHighWaterMark\<close>, recompute the low watermark.
\<close>

definition queueFullAdjust :: "nat \<Rightarrow> pump \<Rightarrow> pump" where
  "queueFullAdjust payloadChunkSize p =
     (let high = max (minHighWaterMark payloadChunkSize) (highWaterMark p div 2);
          low = max (512 * 1024) (high div 4)
      in p\<lparr>highWaterMark := high, lowWaterMark := low\<rparr>)"

text \<open>
  The two nested loops of the non-empty case. \<open>pumpOuter\<close> is one round of
  \<open>while (offset < file.size)\<close> up to the point where the time budget starts;
  \<open>pumpInner\<close> is one round of \<open>while (offset < file.size && nowMs() < deadline)\<close>
  together with what follows the inner loop when it ends. \<open>c\<close> is the payload chunk size.
\<close>

fun pumpOuter :: "nat \<Rightarrow> bytes \<Rightarrow> obs list \<Rightarrow> pump \<Rightarrow> outcome"
  and pumpInner :: "nat \<Rightarrow> bytes \<Rightarrow> obs list \<Rightarrow> pump \<Rightarrow> outcome" where
  "pumpOuter c file [] p = (if offset p < length file then Pending p else Done p)"
| "pumpOuter c file (ob # os) p =
     (if \<not> offset p < length file then Done p
      else if sigAborted ob then Threw AbortError p
      else if \<not> ctrlOpen ob then Threw ConnectionLost p
      else if openChannels (chans ob) = [] then Threw FileChannelClosed p
      else if allFull (highWaterMark p) (chans ob) then
        (if waitAborted ob then Threw AbortError p else pumpOuter c file os p)
      else pumpInner c file os p)"
| "pumpInner c file [] p = (if offset p < length file then Pending p else Done p)"
| "pumpInner c file (ob # os) p =
     (if \<not> offset p < length file then Done p
      else if \<not> inBudget ob then pumpOuter c file os p
      else if sigAborted ob then Threw AbortError p
      else if \<not> ctrlOpen ob then Threw ConnectionLost p
      else case pickChannel (highWaterMark p) (rrIndex p) (chans ob) of
             None \<Rightarrow> (if waitAborted ob then Threw AbortError p else pumpOuter c file os p)
           | Some (idx, rr) \<Rightarrow>
               (let end' = min (offset p + c) (length file);
                    frame = mkFrame (seqNo p) file (offset p) end';
                    p1 = p\<lparr>rrIndex := rr\<rparr>
                in case sendResult ob of
                     SendOk \<Rightarrow>
                       pumpInner c file os
                         (p1\<lparr>offset := end', seqNo := seqNo p + 1,
                             sentFrames := sentFrames p @ [(idx, frame)]\<rparr>)
                   | SendQueueFull \<Rightarrow>
                       (if waitAborted ob then Threw AbortError (queueFullAdjust c p1)
                        else pumpOuter c file os (queueFullAdjust c p1))
                   | SendOther \<Rightarrow> Threw SendFailed p1))"

text \<open>
  The empty-file case after \<open>dc0\<close> has been chosen: \<open>while (true)\<close> around the send of
  the bare header \<open>(0, 0)\<close>.
\<close>

fun sendEmpty :: "nat \<Rightarrow> obs list \<Rightarrow> pump \<Rightarrow> outcome" where
  "sendEmpty dc0 [] p = Pending p"
| "sendEmpty dc0 (ob # os) p =
     (if sigAborted ob then Threw AbortError p
      else case sendResult ob of
             SendOk \<Rightarrow> Done (p\<lparr>sentFrames := sentFrames p @ [(dc0, setUint32 0 @ setUint32 0)]\<rparr>)
           | SendQueueFull \<Rightarrow>
               (if waitAborted ob then Threw AbortError p else sendEmpty dc0 os p)
           | SendOther \<Rightarrow> Threw SendFailed p)"

text \<open>The index of the first open channel, \<open>getOpenChannels()[0]\<close>.\<close>

definition firstOpen :: "chan list \<Rightarrow> nat option" where
  "firstOpen cs = find (\<lambda>i. isOpen (cs ! i)) [0..<length cs]"

text \<open>
  \<open>sendFileChunks\<close> for a staged file with the given bytes. \<open>maxMsg\<close> and \<open>dcHigh\<close>
  are the transport's maximum message size and \<open>DC_BUFFER_HIGH_WATER_MARK\<close>. \<open>ob\<close> is
  what the checks at the top of the function see (they run without a pause); the
  watermarks are computed from the number of channels open then. \<open>noPump\<close> stands for
  the pump's variables before they are initialised.
\<close>

definition initialPump :: "nat \<Rightarrow> nat \<Rightarrow> nat \<Rightarrow> pump" where
  "initialPump payloadChunkSize dcHigh channelCount =
     (let minHigh = minHighWaterMark payloadChunkSize;
          totalHigh = max dcHigh (minHigh * channelCount);
          high = max minHigh (totalHigh div channelCount);
          low = max (512 * 1024) (high div 4)
      in \<lparr>offset = 0, seqNo = 0, rrIndex = 0, highWaterMark = high, lowWaterMark = low,
          sentFrames = []\<rparr>)"

definition noPump :: pump where
  "noPump = \<lparr>offset = 0, seqNo = 0, rrIndex = 0, highWaterMark = 0, lowWaterMark = 0,
             sentFrames = []\<rparr>"

definition sendFileChunks :: "nat \<Rightarrow> nat \<Rightarrow> bytes \<Rightarrow> obs \<Rightarrow> obs list \<Rightarrow> outcome" where
  "sendFileChunks maxMsg dcHigh file ob os =
     (if \<not> ctrlOpen ob then Threw ConnectionNotEstablished noPump
      else if openChannels (chans ob) = [] then Threw FileChannelNotReady noPump
      else if sigAborted ob then Threw AbortError noPump
      else
        (let c = getSendChunkSize maxMsg FILE_FRAME_HEADER_BYTES;
             p = initialPump c dcHigh (length (openChannels (chans ob)))
         in if length file = 0 then
              (case firstOpen (chans ob) of
                 None \<Rightarrow> Threw FileChannelNotReady p
               | Some dc0 \<Rightarrow> if waitAborted ob then Threw AbortError p else sendEmpty dc0 os p)
            else pumpOuter c file os p))"

text \<open>
  For stating properties: the number of frames \<open>ceil(S / c)\<close>, the payload of frame
  \<open>i\<close> (the bytes from offset \<open>i * c\<close> up to \<open>min ((i + 1) * c) S\<close>), an environment
  that lets every send through, and the pump's loop invariant.
\<close>

definition frameCount :: "nat \<Rightarrow> nat \<Rightarrow> nat" where
  "frameCount S c = (S + c - 1) div c"

definition slice :: "bytes \<Rightarrow> nat \<Rightarrow> nat \<Rightarrow> bytes" where
  "slice file from to = take (to - from) (drop from file)"

definition chunkPayload :: "nat \<Rightarrow> bytes \<Rightarrow> nat \<Rightarrow> bytes" where
  "chunkPayload c file i = slice file (i * c) (min ((i + 1) * c) (length file))"

definition wireFrame :: "nat \<Rightarrow> bytes \<Rightarrow> nat \<Rightarrow> bytes" where
  "wireFrame c file i =
     setUint32 i @ setUint32 (length (chunkPayload c file i)) @ chunkPayload c file i"

definition calmObs :: obs where
  "calmObs = \<lparr>sigAborted = False, ctrlOpen = True,
              chans = [\<lparr>isOpen = True, bufferedAmount = 0\<rparr>], inBudget = True,
              sendResult = SendOk, waitAborted = False\<rparr>"

definition pumpInv :: "nat \<Rightarrow> bytes \<Rightarrow> pump \<Rightarrow> bool" where
  "pumpInv c file p \<longleftrightarrow>
     offset p = min (seqNo p * c) (length file)
   \<and> seqNo p \<le> frameCount (length file) c
   \<and> minHighWaterMark c \<le> highWaterMark p
   \<and> map snd (sentFrames p) = map (wireFrame c file) [0..<seqNo p]"

text \<open>Whether a call has returned normally, and an environment whose sends hit a full queue.\<close>

fun isDone :: "outcome \<Rightarrow> bool" where
  "isDone (Done p) = True"
| "isDone (Threw e p) = False"
| "isDone (Pending p) = False"

definition fullObs :: obs where
  "fullObs = calmObs\<lparr>sendResult := SendQueueFull\<rparr>"

section \<open>Sender side: starting and cancelling an outgoing transfer\<close>

text \<open>
  An entry of \<open>outgoingTransfers\<close>: whether its AbortController has fired, and
  \<open>metaSent\<close>.
\<close>

record outState =
  ctlAborted :: bool
  metaSent :: bool

text \<open>
  The sender's module-level state: the staged files (name and size), the outgoing queue
  with its id sets, the active transfers, early accepts and accept waiters; whether the
  control channel is open (\<open>peer?.dc?.readyState === "open"\<close>), the control messages handed
  to the channel, and how often \<open>peer.resetFileTxChannel\<close> ran. A peer object is assumed
  to exist.
\<close>

record sender =
  stagedFiles :: "string \<rightharpoonup> string \<times> nat"
  outgoingQueue :: "string list"
  outgoingQueuedIds :: "string set"
  outgoingCancelledIds :: "string set"
  outgoingTransfers :: "string \<rightharpoonup> outState"
  fileAcceptEarly :: "string set"
  fileAcceptWaiters :: "string set"
  txOpen :: bool
  txSent :: "ctrlMsg list"
  txResets :: nat

text \<open>\<open>PeerClient.send\<close>: hands the message to the control channel iff it is open.\<close>

definition peerSend :: "sender \<Rightarrow> ctrlMsg \<Rightarrow> sender" where
  "peerSend s m = (if txOpen s then s\<lparr>txSent := txSent s @ [m]\<rparr> else s)"

text \<open>
  \<open>doSendFile\<close> up to the first pause: nothing happens for an id that is not staged; an
  error is thrown when the control channel is not open or the id was cancelled while
  queued; otherwise the transfer is registered with \<open>metaSent: false\<close>.
\<close>

definition doSendFile_start :: "sender \<Rightarrow> string \<Rightarrow> sender \<times> sendError option" where
  "doSendFile_start s fid =
     (case stagedFiles s fid of
        None \<Rightarrow> (s, None)
      | Some f \<Rightarrow>
          if \<not> txOpen s then (s, Some ConnectionNotEstablished)
          else if fid \<in> outgoingCancelledIds s then (s, Some AbortError)
          else (s\<lparr>outgoingTransfers :=
                    (outgoingTransfers s)(fid \<mapsto> \<lparr>ctlAborted = False, metaSent = False\<rparr>)\<rparr>, None))"

text \<open>
  \<open>doSendFile\<close> from the return of \<open>ensureFileTxChannels\<close> to the wait for the accept:
  an abort that happened meanwhile is thrown (and the \<open>finally\<close> block unregisters the
  transfer); otherwise \<open>file-meta\<close> goes to \<open>peer.send\<close> and \<open>metaSent\<close> is set. \<open>nm\<close>
  and \<open>sz\<close> are the name and size of the file read at the start, \<open>sid\<close> is
  \<open>peer.getFileTxId()\<close> and \<open>sc\<close> the stream count. A transfer that is no longer
  registered was removed by the connection-loss handler, which aborts it first.
\<close>

definition doSendFile_meta ::
  "sender \<Rightarrow> string \<Rightarrow> string \<Rightarrow> nat \<Rightarrow> string \<Rightarrow> nat \<Rightarrow> sender \<times> sendError option" where
  "doSendFile_meta s fid nm sz sid sc =
     (case outgoingTransfers s fid of
        None \<Rightarrow> (s, Some AbortError)
      | Some st \<Rightarrow>
          if ctlAborted st then
            (s\<lparr>outgoingTransfers := (outgoingTransfers s)(fid := None)\<rparr>, Some AbortError)
          else
            (let s1 = peerSend s (FileMeta fid sid sc nm sz)
             in (s1\<lparr>outgoingTransfers := (outgoingTransfers s1)(fid \<mapsto> st\<lparr>metaSent := True\<rparr>)\<rparr>,
                 None)))"

definition cancelQueuedOutgoingJob :: "sender \<Rightarrow> string \<Rightarrow> sender \<times> bool" where
  "cancelQueuedOutgoingJob s fid =
     (if fid \<notin> set (outgoingQueue s) then (s, False)
      else (s\<lparr>outgoingQueue := remove1 fid (outgoingQueue s),
               outgoingQueuedIds := outgoingQueuedIds s - {fid},
               outgoingCancelledIds := outgoingCancelledIds s - {fid}\<rparr>, True))"

text \<open>
  \<open>cancelOutgoingFile(id, { notifyPeer, reason })\<close>. Rejecting the accept waiter removes
  it; aborting the controller is recorded in the transfer's entry, which \<open>doSendFile\<close>
  unregisters later when the abort reaches it.
\<close>

definition cancelOutgoingFile :: "sender \<Rightarrow> string \<Rightarrow> bool \<Rightarrow> string \<Rightarrow> sender" where
  "cancelOutgoingFile s fid notifyPeer reason =
     (let fileId = trim fid
      in if fileId = [] then s
         else if outgoingTransfers s fileId = None \<and> fileId \<notin> outgoingQueuedIds s then
           s\<lparr>stagedFiles := (stagedFiles s)(fileId := None)\<rparr>
         else
           (let s1 = s\<lparr>fileAcceptEarly := fileAcceptEarly s - {fileId}\<rparr>
            in case outgoingTransfers s1 fileId of
                 Some st \<Rightarrow>
                   (let s2 = (if notifyPeer \<and> metaSent st \<and> txOpen s1
                              then peerSend s1 (FileCancel fileId reason) else s1)
                    in s2\<lparr>fileAcceptWaiters := fileAcceptWaiters s2 - {fileId},
                           outgoingTransfers :=
                             (outgoingTransfers s2)(fileId \<mapsto> st\<lparr>ctlAborted := True\<rparr>),
                           txResets := txResets s2 + 1\<rparr>)
               | None \<Rightarrow>
                   (case cancelQueuedOutgoingJob s1 fileId of
                      (s2, True) \<Rightarrow> s2
                    | (s2, False) \<Rightarrow>
                        s2\<lparr>outgoingCancelledIds := insert fileId (outgoingCancelledIds s2)\<rparr>)))"

text \<open>
  The two callers: the user's cancel button (\<open>window.cancelSend\<close>) and the sender's part
  of the \<open>file-cancel\<close> branch of \<open>onPeerData\<close>, where the peer cancelled first.
\<close>

definition cancelSend :: "sender \<Rightarrow> string \<Rightarrow> sender" where
  "cancelSend s fid = cancelOutgoingFile s fid True ''Canceled''"

definition onFileCancel :: "sender \<Rightarrow> string \<Rightarrow> string option \<Rightarrow> sender" where
  "onFileCancel s fid reason =
     (let fileId = trim fid
      in if fileId = [] then s
         else let given = trim (case reason of None \<Rightarrow> ''Canceled by the other side'' | Some r \<Rightarrow> r);
                  why = (if given = [] then ''Canceled by the other side'' else given)
              in cancelOutgoingFile s fileId False why)"

text \<open>An example: one staged five-byte file whose job the queue has just taken up.\<close>

definition exampleSender :: sender where
  "exampleSender =
     \<lparr>stagedFiles = [''f'' \<mapsto> (''a.bin'', 5)], outgoingQueue = [], outgoingQueuedIds = {''f''},
      outgoingCancelledIds = {}, outgoingTransfers = Map.empty, fileAcceptEarly = {},
      fileAcceptWaiters = {}, txOpen = True, txSent = [], txResets = 0\<rparr>"

section \<open>Host-candidate rewriting (src/webrtc/peerClient.js)\<close>

text \<open>\<open>String.prototype.split\<close> with a one-character separator.\<close>

fun splitOn :: "char \<Rightarrow> string \<Rightarrow> string list" where
  "splitOn c [] = [[]]"
| "splitOn c (x # xs) =
     (if x = c then [] # splitOn c xs
      else case splitOn c xs of [] \<Rightarrow> [[x]] | p # ps \<Rightarrow> (x # p) # ps)"

text \<open>\<open>text.split(/\r?\n/)\<close>: a line ends at a line feed, with the carriage return before it if there is one.\<close>

fun splitLines :: "string \<Rightarrow> string list" where
  "splitLines [] = [[]]"
| "splitLines [x] = (if x = CHR 0x0A then [[], []] else [[x]])"
| "splitLines (x # y # zs) =
     (if x = CHR 0x0D \<and> y = CHR 0x0A then [] # splitLines zs
      else if x = CHR 0x0A then [] # splitLines (y # zs)
      else case splitLines (y # zs) of [] \<Rightarrow> [[x]] | p # ps \<Rightarrow> (x # p) # ps)"

text \<open>\<open>Array.prototype.join\<close> and \<open>String.prototype.includes\<close>.\<close>

fun joinWith :: "string \<Rightarrow> string list \<Rightarrow> string" where
  "joinWith sep [] = []"
| "joinWith sep [p] = p"
| "joinWith sep (p # q # ps) = p @ sep @ joinWith sep (q # ps)"

definition strIncludes :: "string \<Rightarrow> string \<Rightarrow> bool" where
  "strIncludes s sub = list_ex (\<lambda>i. take (length sub) (drop i s) = sub) [0..<Suc (length s)]"

definition isDigit :: "char \<Rightarrow> bool" where
  "isDigit ch = (48 \<le> (of_char ch :: nat) \<and> (of_char ch :: nat) \<le> 57)"

text \<open>\<open>Number(p)\<close> for a string of decimal digits.\<close>

definition decimalValue :: "string \<Rightarrow> nat" where
  "decimalValue p = foldl (\<lambda>acc ch. acc * 10 + (of_char ch - 48)) 0 p"

text \<open>
  \<open>isValidIpv4\<close>: after trimming, four parts separated by dots, each matching
  \<open>/^\d{1,3}$/\<close> with a value of at most 255.
\<close>

definition isValidIpv4 :: "string \<Rightarrow> bool" where
  "isValidIpv4 ip =
     (let s = trim ip
      in if s = [] then False
         else (let parts = splitOn CHR ''.'' s
               in if length parts \<noteq> 4 then False
                  else list_all (\<lambda>p. 1 \<le> length p \<and> length p \<le> 3 \<and> list_all isDigit p
                                      \<and> decimalValue p \<le> 255) parts))"

text \<open>
  The override is \<open>None\<close> when the value is null or undefined, which \<open>String(value ?? "")\<close>
  turns into the empty string.
\<close>

definition normalizeLanIpOverride :: "string option \<Rightarrow> string" where
  "normalizeLanIpOverride v =
     (let s = trim (case v of None \<Rightarrow> [] | Some x \<Rightarrow> x)
      in if s = [] then [] else if isValidIpv4 s then s else [])"

text \<open>
  One round of the loop over the lines: the rewritten line, or \<open>None\<close> where the loop
  says \<open>continue\<close>.
\<close>

definition rewriteLine :: "string \<Rightarrow> string \<Rightarrow> string option" where
  "rewriteLine ip line =
     (if line = [] \<or> \<not> startsWith line ''a=candidate:'' then None
      else if \<not> strIncludes line '' typ host'' then None
      else (let parts = splitOn CHR '' '' line
            in if length parts < 6 then None
               else (let addr = parts ! 4
                     in if addr = [] \<or> \<not> endsWith addr ''.local'' then None
                        else Some (joinWith '' '' (parts[4 := ip])))))"

definition rewriteMdnsHostCandidatesInSdp :: "string \<Rightarrow> string option \<Rightarrow> string" where
  "rewriteMdnsHostCandidatesInSdp sdp ipv4 =
     (let ip = normalizeLanIpOverride ipv4
      in if ip = [] then sdp
         else if sdp = [] then sdp
         else (let sep = (if strIncludes sdp [CHR 0x0D, CHR 0x0A] then [CHR 0x0D, CHR 0x0A]
                          else [CHR 0x0A]);
                   lines = splitLines sdp;
                   changed = list_ex (\<lambda>line. rewriteLine ip line \<noteq> None) lines;
                   lines' = map (\<lambda>line. case rewriteLine ip line of None \<Rightarrow> line | Some l \<Rightarrow> l) lines
               in if changed then joinWith sep lines' else sdp))"

text \<open>An example description with one mDNS host candidate.\<close>

definition exampleSdp :: string where
  "exampleSdp = ''v=0'' @ [CHR 0x0D, CHR 0x0A]
     @ ''a=candidate:1 1 udp 2113937151 6f2a.local 54321 typ host generation 0'' @ [CHR 0x0D, CHR 0x0A]"

section \<open>Signal codec (base32, PeerClient.encodeSignal and decodeSignal, src/webrtc/peerClient.js)\<close>

definition BASE32_ALPHABET :: string where
  "BASE32_ALPHABET = ''ABCDEFGHIJKLMNOPQRSTUVWXYZ234567''"

text \<open>
  \<open>BASE32_LOOKUP\<close>: the table of 256 entries, \<open>-1\<close> except at the code of an alphabet
  character, where it holds the character's position.
\<close>

definition BASE32_LOOKUP :: "nat \<Rightarrow> int" where
  "BASE32_LOOKUP code =
     (case find (\<lambda>i. of_char (BASE32_ALPHABET ! i) = code) [0..<length BASE32_ALPHABET] of
        Some i \<Rightarrow> int i
      | None \<Rightarrow> - 1)"

text \<open>
  The accumulator \<open>buffer\<close> of both loops only meets bitwise operators, so it is a signed
  32-bit integer: a \<open>32 word\<close>, with \<open>>>\<close> the arithmetic shift. The shift counts stay
  below 13. \<open>encEmit\<close> is the inner loop \<open>while (bits >= 5)\<close> of the encoder.
\<close>

fun encEmit :: "32 word \<Rightarrow> nat \<Rightarrow> string \<Rightarrow> nat \<times> string" where
  "encEmit buffer bits out =
     (if bits \<ge> 5
      then encEmit buffer (bits - 5)
             (out @ [BASE32_ALPHABET ! unat (signed_drop_bit (bits - 5) buffer AND 31)])
      else (bits, out))"

declare encEmit.simps [simp del]

fun encLoop :: "bytes \<Rightarrow> 32 word \<Rightarrow> nat \<Rightarrow> string \<Rightarrow> 32 word \<times> nat \<times> string" where
  "encLoop [] buffer bits out = (buffer, bits, out)"
| "encLoop (b # bs) buffer bits out =
     (let buffer' = push_bit 8 buffer OR ucast b;
          (bits', out') = encEmit buffer' (bits + 8) out
      in encLoop bs buffer' bits' out')"

definition base32EncodeBytes :: "bytes \<Rightarrow> string" where
  "base32EncodeBytes data =
     (let (buffer, bits, out) = encLoop data 0 0 []
      in if bits > 0
         then out @ [BASE32_ALPHABET ! unat (push_bit (5 - bits) buffer AND 31)]
         else out)"

text \<open>
  \<open>String.prototype.toUpperCase\<close> on 8-bit code units: ASCII and Latin-1 letters, with
  the sharp s becoming two letters. The micro sign and y with diaeresis, whose upper-case
  forms lie outside Latin-1, are left as they are; the lookup rejects them either way.
\<close>

definition upperUnit :: "char \<Rightarrow> string" where
  "upperUnit ch =
     (let n = (of_char ch :: nat)
      in if 97 \<le> n \<and> n \<le> 122 then [char_of (n - 32)]
         else if n = 223 then ''SS''
         else if 224 \<le> n \<and> n \<le> 254 \<and> n \<noteq> 247 then [char_of (n - 32)]
         else [ch])"

definition toUpperCase :: "string \<Rightarrow> string" where
  "toUpperCase s = concat (map upperUnit s)"

datatype codecError =
  MissingDescription | EmptyCode | CannotDecompress | InvalidBase32 | InvalidBase64
| DecompressFailed | JsonFailed | InvalidFormat

text \<open>The inner loop \<open>while (bits >= 8)\<close> of the decoder.\<close>

fun decEmit :: "32 word \<Rightarrow> nat \<Rightarrow> bytes \<Rightarrow> nat \<times> bytes" where
  "decEmit buffer bits out =
     (if bits \<ge> 8
      then decEmit buffer (bits - 8) (out @ [ucast (signed_drop_bit (bits - 8) buffer AND 255)])
      else (bits, out))"

declare decEmit.simps [simp del]

fun decLoop :: "string \<Rightarrow> 32 word \<Rightarrow> nat \<Rightarrow> bytes \<Rightarrow> codecError + bytes" where
  "decLoop [] buffer bits out = Inr out"
| "decLoop (c # cs) buffer bits out =
     (let ch = (of_char c :: nat)
      in if ch = 10 \<or> ch = 13 \<or> ch = 9 \<or> ch = 32 then decLoop cs buffer bits out
         else (let val = (if ch < 256 then BASE32_LOOKUP ch else - 1)
               in if val < 0 then Inl InvalidBase32
                  else (let buffer' = push_bit 5 buffer OR word_of_int val;
                            (bits', out') = decEmit buffer' (bits + 5) out
                        in decLoop cs buffer' bits' out')))"

definition base32DecodeToBytes :: "string \<Rightarrow> codecError + bytes" where
  "base32DecodeToBytes input =
     (let s = rev (dropWhile (\<lambda>c. c = CHR ''='') (rev (toUpperCase input)))
      in decLoop s 0 0 [])"

text \<open>The four prefixes of a connection code.\<close>

definition SIGNAL_PREFIX_GZIP :: string where "SIGNAL_PREFIX_GZIP = ''SHR1:''"
definition SIGNAL_PREFIX_RAW :: string where "SIGNAL_PREFIX_RAW = ''SHR0:''"
definition SIGNAL_PREFIX_GZIP_B32 :: string where "SIGNAL_PREFIX_GZIP_B32 = ''SHR2:''"
definition SIGNAL_PREFIX_RAW_B32 :: string where "SIGNAL_PREFIX_RAW_B32 = ''SHR3:''"

text \<open>
  JSON values, and the browser facilities the codec calls, taken as parameters:
  whether \<open>CompressionStream\<close> and \<open>DecompressionStream\<close> exist, the gzip streams
  (\<open>None\<close> when the stream fails), \<open>JSON.stringify\<close>, the UTF-8 encoding done by
  \<open>Blob\<close>, \<open>Response.json\<close> (\<open>None\<close> when it rejects) and \<open>atob\<close> (\<open>None\<close> when it
  throws).
\<close>

datatype json =
    JsonNull
  | JsonBool bool
  | JsonNum int
  | JsonStr string
  | JsonArr "json list"
  | JsonObj "(string \<times> json) list"

record platform =
  hasCompressionStream :: bool
  hasDecompressionStream :: bool
  gzip :: "bytes \<Rightarrow> bytes option"
  gunzip :: "bytes \<Rightarrow> bytes option"
  jsonStringify :: "json \<Rightarrow> string"
  utf8 :: "string \<Rightarrow> bytes"
  responseJson :: "bytes \<Rightarrow> json option"
  atob :: "string \<Rightarrow> string option"

definition hasStreamCompression :: "platform \<Rightarrow> bool" where
  "hasStreamCompression pf = (hasCompressionStream pf \<and> hasDecompressionStream pf)"

text \<open>The fields of the shared \<open>webrtcConfig\<close> object that the encoder reads.\<close>

record webrtcConfig =
  useStun :: bool
  useSignalCompression :: bool
  useUnorderedFileChannel :: bool
  useFastTransfer :: bool
  useLanIpOverride :: bool
  lanIpOverride :: string

record sessionDescription =
  descType :: string
  descSdp :: string

text \<open>
  \<open>encodeSignal\<close>: \<open>signalSdp\<close> is the local \<open>sdp\<close>, \<open>signalCfg\<close> the local \<open>cfg\<close>,
  \<open>signalEnvelope\<close> the object handed to \<open>JSON.stringify\<close> and \<open>signalPayload\<close> the bytes
  of the resulting text. A failure inside the \<open>try\<close> block falls back to the raw form.
\<close>

definition oneOrZero :: "bool \<Rightarrow> json" where
  "oneOrZero b = JsonNum (if b then 1 else 0)"

definition signalSdp :: "webrtcConfig \<Rightarrow> sessionDescription \<Rightarrow> string" where
  "signalSdp cfg desc =
     (if useLanIpOverride cfg
      then rewriteMdnsHostCandidatesInSdp (descSdp desc) (Some (lanIpOverride cfg))
      else descSdp desc)"

definition signalCfg :: "webrtcConfig \<Rightarrow> json" where
  "signalCfg cfg = JsonObj [(''stun'', oneOrZero (useStun cfg)),
                            (''fileUnordered'', oneOrZero (useUnorderedFileChannel cfg)),
                            (''fast'', oneOrZero (useFastTransfer cfg))]"

definition signalEnvelope :: "webrtcConfig \<Rightarrow> sessionDescription \<Rightarrow> json" where
  "signalEnvelope cfg desc = JsonObj [(''t'', JsonStr (descType desc)),
                                       (''s'', JsonStr (signalSdp cfg desc)),
                                       (''c'', signalCfg cfg)]"

definition signalPayload :: "platform \<Rightarrow> webrtcConfig \<Rightarrow> sessionDescription \<Rightarrow> bytes" where
  "signalPayload pf cfg desc = utf8 pf (jsonStringify pf (signalEnvelope cfg desc))"

definition encodeSignal ::
  "platform \<Rightarrow> webrtcConfig \<Rightarrow> sessionDescription option \<Rightarrow> codecError + string" where
  "encodeSignal pf cfg d =
     (case d of
        None \<Rightarrow> Inl MissingDescription
      | Some desc \<Rightarrow>
          if descType desc = [] \<or> descSdp desc = [] then Inl MissingDescription
          else (let payload = signalPayload pf cfg desc;
                    compressed = (if useSignalCompression cfg \<and> hasStreamCompression pf
                                  then gzip pf payload else None)
                in case compressed of
                     Some buf \<Rightarrow> Inr (SIGNAL_PREFIX_GZIP_B32 @ base32EncodeBytes buf)
                   | None \<Rightarrow> Inr (SIGNAL_PREFIX_RAW_B32 @ base32EncodeBytes payload)))"

text \<open>The base64url decoder of the two older prefixes.\<close>

definition base64ToBytes :: "platform \<Rightarrow> string \<Rightarrow> codecError + bytes" where
  "base64ToBytes pf b64 =
     (case atob pf b64 of
        None \<Rightarrow> Inl InvalidBase64
      | Some bin \<Rightarrow> Inr (map (\<lambda>c. of_nat (of_char c)) bin))"

definition base64UrlDecodeToBytes :: "platform \<Rightarrow> string \<Rightarrow> codecError + bytes" where
  "base64UrlDecodeToBytes pf b64url =
     (let b64 = map (\<lambda>c. if c = CHR ''-'' then CHR ''+'' else if c = CHR ''_'' then CHR ''/'' else c)
                  b64url;
          pad = length b64 mod 4
      in base64ToBytes pf (if pad \<noteq> 0 then b64 @ replicate (4 - pad) CHR ''='' else b64))"

text \<open>
  \<open>json?.t\<close>: a property of a parsed object, \<open>None\<close> (undefined) when the value is not
  an object or lacks the key. \<open>decodeSignal\<close> returns the triple \<open>(type, sdp, cfg)\<close>.
\<close>

definition jsonMember :: "json \<Rightarrow> string \<Rightarrow> json option" where
  "jsonMember j k = (case j of JsonObj kvs \<Rightarrow> map_of kvs k | _ \<Rightarrow> None)"

type_synonym signal = "json option \<times> json option \<times> json option"

definition readJson :: "platform \<Rightarrow> bytes \<Rightarrow> codecError + signal" where
  "readJson pf body =
     (case responseJson pf body of
        None \<Rightarrow> Inl JsonFailed
      | Some j \<Rightarrow> Inr (jsonMember j ''t'', jsonMember j ''s'', jsonMember j ''c''))"

definition gunzipJson :: "platform \<Rightarrow> bytes \<Rightarrow> codecError + signal" where
  "gunzipJson pf body =
     (case gunzip pf body of
        None \<Rightarrow> Inl DecompressFailed
      | Some raw \<Rightarrow> readJson pf raw)"

definition decodeSignal :: "platform \<Rightarrow> string \<Rightarrow> codecError + signal" where
  "decodeSignal pf code =
     (let trimmed = trim code
      in if trimmed = [] then Inl EmptyCode
         else if startsWith trimmed SIGNAL_PREFIX_GZIP_B32 then
           (if \<not> hasStreamCompression pf then Inl CannotDecompress
            else case base32DecodeToBytes (drop (length SIGNAL_PREFIX_GZIP_B32) trimmed) of
                   Inl e \<Rightarrow> Inl e
                 | Inr body \<Rightarrow> gunzipJson pf body)
         else if startsWith trimmed SIGNAL_PREFIX_RAW_B32 then
           (case base32DecodeToBytes (drop (length SIGNAL_PREFIX_RAW_B32) trimmed) of
              Inl e \<Rightarrow> Inl e
            | Inr body \<Rightarrow> readJson pf body)
         else if startsWith trimmed SIGNAL_PREFIX_GZIP then
           (if \<not> hasStreamCompression pf then Inl CannotDecompress
            else case base64UrlDecodeToBytes pf (drop (length SIGNAL_PREFIX_GZIP) trimmed) of
                   Inl e \<Rightarrow> Inl e
                 | Inr body \<Rightarrow> gunzipJson pf body)
         else if startsWith trimmed SIGNAL_PREFIX_RAW then
           (case base64UrlDecodeToBytes pf (drop (length SIGNAL_PREFIX_RAW) trimmed) of
              Inl e \<Rightarrow> Inl e
            | Inr body \<Rightarrow> readJson pf body)
         else Inl InvalidFormat)"

text \<open>
  Examples: an offer under the default configuration, and an offer with one mDNS host
  candidate under a configuration with a LAN override and without compression, each with
  the JSON document of its envelope and the text of that document. The platform of the
  examples compresses by prepending the two gzip magic bytes, and its JSON layer knows one
  document and its text.
\<close>

definition exampleDescription :: sessionDescription where
  "exampleDescription = \<lparr> descType = ''offer'', descSdp = ''v=0'' \<rparr>"

definition exampleConfig :: webrtcConfig where
  "exampleConfig = \<lparr> useStun = True, useSignalCompression = True, useUnorderedFileChannel = True,
                      useFastTransfer = True, useLanIpOverride = False, lanIpOverride = [] \<rparr>"

definition exampleDocument :: json where
  "exampleDocument =
     JsonObj [(''t'', JsonStr ''offer''), (''s'', JsonStr ''v=0''),
              (''c'', JsonObj [(''stun'', JsonNum 1), (''fileUnordered'', JsonNum 1),
                               (''fast'', JsonNum 1)])]"

definition exampleText :: string where
  "exampleText = ''{\"t\":\"offer\",\"s\":\"v=0\",\"c\":{\"stun\":1,\"fileUnordered\":1,\"fast\":1}}''"

definition lanDescription :: sessionDescription where
  "lanDescription =
     \<lparr> descType = ''offer'',
       descSdp = ''a=candidate:1 1 udp 2113937151 6f2a.local 54321 typ host'' \<rparr>"

definition lanConfig :: webrtcConfig where
  "lanConfig = \<lparr> useStun = True, useSignalCompression = False, useUnorderedFileChannel = True,
                  useFastTransfer = True, useLanIpOverride = True,
                  lanIpOverride = ''192.168.1.7'' \<rparr>"

definition lanDocument :: json where
  "lanDocument =
     JsonObj [(''t'', JsonStr ''offer''),
              (''s'', JsonStr ''a=candidate:1 1 udp 2113937151 192.168.1.7 54321 typ host''),
              (''c'', JsonObj [(''stun'', JsonNum 1), (''fileUnordered'', JsonNum 1),
                               (''fast'', JsonNum 1)])]"

definition lanText :: string where
  "lanText = ''{\"t\":\"offer\",\"s\":\"a=candidate:1 1 udp 2113937151 192.168.1.7 54321 typ host\",\"c\":{\"stun\":1,\"fileUnordered\":1,\"fast\":1}}''"

definition asBytes :: "string \<Rightarrow> bytes" where
  "asBytes s = map (\<lambda>c. of_nat (of_char c)) s"

definition stubPlatform :: "json \<Rightarrow> string \<Rightarrow> platform" where
  "stubPlatform doc txt =
     \<lparr> hasCompressionStream = True, hasDecompressionStream = True,
       gzip = (\<lambda>raw. Some (0x1F # 0x8B # raw)),
       gunzip = (\<lambda>z. case z of a # b # raw \<Rightarrow> if a = 0x1F \<and> b = 0x8B then Some raw else None
                              | _ \<Rightarrow> None),
       jsonStringify = (\<lambda>j. if j = doc then txt else ''null''),
       utf8 = asBytes,
       responseJson = (\<lambda>body. if body = asBytes txt then Some doc else None),
       atob = (\<lambda>s. None) \<rparr>"

section \<open>Notions used in the statements\<close>

text \<open>
  For stating properties: the transfer object after a call of \<open>onFileChunk\<close> (the
  completed one, or else the one still referenced by \<open>peer.receiving\<close>), and the
  condition "on a matching stream after acceptance" under which a chunk reaches the
  sequence-number test.
\<close>

definition transferAfter :: "receiver \<times> incoming option \<Rightarrow> incoming option" where
  "transferAfter res = (case snd res of Some r \<Rightarrow> Some r | None \<Rightarrow> receiving (fst res))"

definition readyFor :: "incoming \<Rightarrow> string \<Rightarrow> bool" where
  "readyFor r sid \<longleftrightarrow>
     \<not> cancelled r \<and> accepted r \<and> writer r \<and>
     (streamId r = [] \<or> trim sid = [] \<or> streamIdMatchesBase (streamId r) (trim sid))"

text \<open>
  What the drain loop has done when it is at \<open>x\<close>, having started from \<open>r0\<close>: it
  committed exactly the entries buffered under \<open>expectedSeq r0, ..., expectedSeq x - 1\<close>, in
  that order, and removed them from the map.
\<close>

definition drained :: "incoming \<Rightarrow> incoming \<Rightarrow> bool" where
  "drained r0 x \<longleftrightarrow>
     expectedSeq r0 \<le> expectedSeq x
   \<and> (\<exists>ext. commitLog x = commitLog r0 @ ext
            \<and> map fst ext = [expectedSeq r0..<expectedSeq x]
            \<and> (\<forall>e \<in> set ext. map_of (pendingChunks r0) (fst e) = Some (snd e)))
   \<and> (\<forall>j. map_of (pendingChunks x) j =
            (if expectedSeq r0 \<le> j \<and> j < expectedSeq x then None else map_of (pendingChunks r0) j))"

text \<open>
  The payloads of the frames of one file as a sender produces them, indexed by sequence
  number: a single empty payload for an empty file, otherwise no payload is empty.
  \<open>fromFrames fr arr\<close>: every arriving chunk carries one of these frames (any order, any
  stream, repetitions allowed).
\<close>

definition senderFrames :: "bytes list \<Rightarrow> bool" where
  "senderFrames fr \<longleftrightarrow> fr = [[]] \<or> (fr \<noteq> [] \<and> [] \<notin> set fr)"

definition fromFrames :: "bytes list \<Rightarrow> (string \<times> nat \<times> bytes) list \<Rightarrow> bool" where
  "fromFrames fr arr \<longleftrightarrow> (\<forall>a \<in> set arr. fst (snd a) < length fr \<and> snd (snd a) = fr ! fst (snd a))"

text \<open>
  The receiver state agrees with the frames \<open>fr\<close>: frames \<open>0 .. expectedSeq - 1\<close> have
  been committed and queued for the writer, the buffered chunks are frames, and the announced
  size is the total length.
\<close>

definition tracks :: "bytes list \<Rightarrow> incoming \<Rightarrow> bool" where
  "tracks fr r \<longleftrightarrow>
     expectedSeq r \<le> length fr
   \<and> (\<forall>e \<in> set (pendingChunks r). fst e < length fr \<and> snd e = fr ! fst e)
   \<and> commitLog r = map (\<lambda>j. (j, fr ! j)) [0..<expectedSeq r]
   \<and> received r = sum_list (map length (take (expectedSeq r) fr))
   \<and> size_in r = sum_list (map length fr)
   \<and> writer r
   \<and> writeQueue r = filter (\<lambda>d. d \<noteq> []) (take (expectedSeq r) fr)"

text \<open>
  The sequence numbers committed so far are \<open>0, 1, ..., expectedSeq - 1\<close>, and the
  writer's queue has received the committed payloads in that order (an empty payload
  queues nothing).
\<close>

definition inOrder :: "incoming \<Rightarrow> bool" where
  "inOrder r \<longleftrightarrow>
     map fst (commitLog r) = [0..<expectedSeq r]
   \<and> writer r
   \<and> writeQueue r = filter (\<lambda>d. d \<noteq> []) (map snd (commitLog r))"

text \<open>
  An example used to instantiate the theorems: a five-byte file announced on stream
  \<open>s\<close> with two stripes and accepted, sent as three frames, which arrive reordered
  and with one duplicate.
\<close>

definition examplePeer :: receiver where
  "examplePeer = acceptFile (onFileMeta \<lparr>receiving = None, dcOpen = True, ctrlSent = [], closedPrefixes = []\<rparr>
          ''f'' ''s'' 2 ''a.bin'' 5)"

definition exampleFrames :: "bytes list" where
  "exampleFrames = [[1, 2], [3, 4], [5]]"

definition exampleArrivals :: "(string \<times> nat \<times> bytes) list" where
  "exampleArrivals = [(''s:1'', 1, [3, 4]), (''s'', 2, [5]), (''s:1'', 1, [3, 4]), (''s'', 0, [1, 2])]"

text \<open>The big-endian value of four bytes, for stating what the header parse reads.\<close>

definition be32 :: "byte \<Rightarrow> byte \<Rightarrow> byte \<Rightarrow> byte \<Rightarrow> nat" where
  "be32 a b c d = unat a * 2 ^ 24 + unat b * 2 ^ 16 + unat c * 2 ^ 8 + unat d"

text \<open>
  For the codec: the low \<open>n\<close> bits of a word, most significant first; the character
  of a five-bit value; and the five bits of such a value.
\<close>

primrec bitsOf :: "nat \<Rightarrow> 'a::len word \<Rightarrow> bool list" where
  "bitsOf 0 w = []"
| "bitsOf (Suc n) w = bit w n # bitsOf n w"

definition b32char :: "nat \<Rightarrow> char" where
  "b32char v = BASE32_ALPHABET ! v"

definition fiveBits :: "nat \<Rightarrow> bool list" where
  "fiveBits v = bitsOf 5 (of_nat v :: 32 word)"

section \<open>Properties of the rendezvous client\<close>

lemma onBroadcast_fields:
  "clientId (onBroadcast s p) = clientId s \<and> onMessage (onBroadcast s p) = onMessage s"
  by (simp add: onBroadcast_def Let_def)

lemma foldl_onBroadcast_inbox:
  assumes "clientId s \<noteq> []" and "onMessage s"
  shows "inbox (foldl onBroadcast s (map Some ps)) =
         inbox s @ map dataStr (filter (\<lambda>p. truthy (dataStr p) \<and> senderId p \<noteq> JStr (clientId s)) ps)"
  using assms
proof (induction ps arbitrary: s)
  case Nil
  then show ?case by simp
next
  case (Cons p ps)
  let ?s = "onBroadcast s (Some p)"
  have keep: "clientId ?s = clientId s" "onMessage ?s"
    using Cons.prems by (simp_all add: onBroadcast_fields)
  have step: "inbox ?s = inbox s @
      (if truthy (dataStr p) \<and> senderId p \<noteq> JStr (clientId s) then [dataStr p] else [])"
    using Cons.prems by (auto simp add: onBroadcast_def Let_def)
  have "inbox (foldl onBroadcast ?s (map Some ps)) =
        inbox ?s @ map dataStr (filter (\<lambda>q. truthy (dataStr q) \<and> senderId q \<noteq> JStr (clientId ?s)) ps)"
    using Cons.IH [of ?s] keep Cons.prems by simp
  then show ?case using keep step by simp
qed

text \<open>
  C9. Self-echo suppression. The client id is never empty (\<open>makeClientId\<close> returns a
  UUID or a string ending in the base-36 clock). Then: a packet whose \<open>senderId\<close> is the
  client's own id leaves the client untouched, so nothing reaches \<open>onMessage\<close>; a packet
  with another \<open>senderId\<close> and a non-empty string \<open>dataStr\<close> is handed to the installed
  \<open>onMessage\<close> callback; and over any sequence of packets the values delivered are exactly
  the truthy \<open>dataStr\<close> of the packets not sent by the client itself, in arrival order.
\<close>

theorem self_echo_suppression:
  assumes "clientId s \<noteq> []"
  shows "(senderId p = JStr (clientId s) \<longrightarrow> onBroadcast s (Some p) = s)
       \<and> (senderId p \<noteq> JStr (clientId s) \<and> dataStr p = JStr d \<and> d \<noteq> [] \<and> onMessage s
            \<longrightarrow> inbox (onBroadcast s (Some p)) = inbox s @ [JStr d])
       \<and> (onMessage s \<longrightarrow> inbox (foldl onBroadcast s (map Some ps)) =
            inbox s @ map dataStr
              (filter (\<lambda>q. truthy (dataStr q) \<and> senderId q \<noteq> JStr (clientId s)) ps))"
proof (intro conjI impI)
  assume "senderId p = JStr (clientId s)"
  then show "onBroadcast s (Some p) = s"
    using assms by (simp add: onBroadcast_def Let_def)
next
  assume "senderId p \<noteq> JStr (clientId s) \<and> dataStr p = JStr d \<and> d \<noteq> [] \<and> onMessage s"
  then show "inbox (onBroadcast s (Some p)) = inbox s @ [JStr d]"
    by (simp add: onBroadcast_def Let_def)
next
  assume "onMessage s"
  then show "inbox (foldl onBroadcast s (map Some ps)) =
      inbox s @ map dataStr
        (filter (\<lambda>q. truthy (dataStr q) \<and> senderId q \<noteq> JStr (clientId s)) ps)"
    using assms by (rule foldl_onBroadcast_inbox [rotated])
qed

theorem self_echo_suppression_witness:
  "onBroadcast \<lparr>clientId = ''me'', onMessage = True, inbox = []\<rparr>
       (Some \<lparr>senderId = JStr ''me'', dataStr = JStr ''x''\<rparr>)
     = \<lparr>clientId = ''me'', onMessage = True, inbox = []\<rparr>
   \<and> inbox (onBroadcast \<lparr>clientId = ''me'', onMessage = True, inbox = []\<rparr>
       (Some \<lparr>senderId = JStr ''you'', dataStr = JStr ''x''\<rparr>)) = [JStr ''x'']
   \<and> inbox (foldl onBroadcast \<lparr>clientId = ''me'', onMessage = True, inbox = []\<rparr>
       (map Some [\<lparr>senderId = JStr ''me'', dataStr = JStr ''a''\<rparr>,
                  \<lparr>senderId = JStr ''you'', dataStr = JStr ''b''\<rparr>,
                  \<lparr>senderId = JStr ''you'', dataStr = JStr ''''\<rparr>])) = [JStr ''b'']"
  using self_echo_suppression [of "\<lparr>clientId = ''me'', onMessage = True, inbox = []\<rparr>"
      "\<lparr>senderId = JStr ''me'', dataStr = JStr ''x''\<rparr>" "''x''"
      "[\<lparr>senderId = JStr ''me'', dataStr = JStr ''a''\<rparr>,
        \<lparr>senderId = JStr ''you'', dataStr = JStr ''b''\<rparr>,
        \<lparr>senderId = JStr ''you'', dataStr = JStr ''''\<rparr>]"]
    self_echo_suppression [of "\<lparr>clientId = ''me'', onMessage = True, inbox = []\<rparr>"
      "\<lparr>senderId = JStr ''you'', dataStr = JStr ''x''\<rparr>" "''x''" "[]"]
  by simp

section \<open>Properties of frame reception\<close>

lemma getUint32_0:
  "getUint32 (b0 # b1 # b2 # b3 # rest) 0 = be32 b0 b1 b2 b3"
  by (simp add: getUint32_def be32_def)

lemma getUint32_4:
  "getUint32 (b0 # b1 # b2 # b3 # b4 # b5 # b6 # b7 # rest) 4 = be32 b4 b5 b6 b7"
  by (simp add: getUint32_def be32_def)

lemma emitFileChunk_events:
  "snd (emitFileChunk now a sid (b0 # b1 # b2 # b3 # b4 # b5 # b6 # b7 # rest)) =
     (if peerTimedOut a then [StatusChange ''connected''] else []) @
     [FileChunk sid (be32 b0 b1 b2 b3)
        (take (if be32 b4 b5 b6 b7 = 0 then length rest else min (be32 b4 b5 b6 b7) (length rest))
           rest)]"
  by (simp add: emitFileChunk_def markPeerActivity_def frameSeq_def framePayload_def
      getUint32_0 getUint32_4 FILE_FRAME_HEADER_BYTES_def Let_def min_def)

text \<open>
  C4, as the code has it. A binary message of at least eight bytes raises exactly one
  \<open>file-chunk\<close> (after a status change when the peer had timed out). Its sequence number is
  the big-endian value of bytes 0..3. With \<open>len\<close> the big-endian value of bytes 4..7 and
  \<open>trailing\<close> the number of bytes after the header, the payload is the first
  \<open>min len trailing\<close> trailing bytes when \<open>len\<close> is not zero, and all trailing bytes
  when \<open>len\<close> is zero.
\<close>

theorem frame_parse_clamped:
  assumes "binaryBytes data = Some (b0 # b1 # b2 # b3 # b4 # b5 # b6 # b7 # rest)"
  shows "snd (handleFileFrame hasArrayBuffer now a sid data) =
     (if peerTimedOut a then [StatusChange ''connected''] else []) @
     [FileChunk sid (be32 b0 b1 b2 b3)
        (take (if be32 b4 b5 b6 b7 = 0 then length rest else min (be32 b4 b5 b6 b7) (length rest))
           rest)]"
proof (cases data)
  case (BlobData b)
  with assms show ?thesis
    by (simp add: handleFileFrame_def FILE_FRAME_HEADER_BYTES_def emitFileChunk_events)
next
  case (BufferData b)
  with assms show ?thesis
    by (simp add: handleFileFrame_def FILE_FRAME_HEADER_BYTES_def emitFileChunk_events)
next
  case (ViewData b)
  with assms show ?thesis
    by (simp add: handleFileFrame_def FILE_FRAME_HEADER_BYTES_def emitFileChunk_events)
qed (use assms in simp_all)

theorem frame_parse_clamped_witness:
  "binaryBytes (BufferData [0, 0, 0, 7, 0, 0, 0, 5, 1, 2, 3]) = Some [0, 0, 0, 7, 0, 0, 0, 5, 1, 2, 3]
   \<and> snd (handleFileFrame True 0 \<lparr>lastPeerActivityAt = 0, peerTimedOut = False\<rparr> ''s''
            (BufferData [0, 0, 0, 7, 0, 0, 0, 5, 1, 2, 3]))
     = [FileChunk ''s'' 7 [1, 2, 3]]"
  using frame_parse_clamped [of "BufferData [0, 0, 0, 7, 0, 0, 0, 5, 1, 2, 3]"
      0 0 0 7 0 0 0 5 "[1, 2, 3]" True 0 "\<lparr>lastPeerActivityAt = 0, peerTimedOut = False\<rparr>" "''s''"]
  by (simp add: be32_def)

text \<open>
  C4, as the claim states it, fails for a declared length of zero followed by trailing
  bytes: the nine-byte message with header \<open>(seq = 0, len = 0)\<close> and one trailing byte is
  delivered with that byte as payload, where \<open>min len trailing = 0\<close> bytes were claimed.
\<close>

theorem frame_parse_min_counterexample:
  "snd (handleFileFrame True 0 \<lparr>lastPeerActivityAt = 0, peerTimedOut = False\<rparr> ''s''
          (BufferData [0, 0, 0, 0, 0, 0, 0, 0, 170]))
     = [FileChunk ''s'' 0 [170]]
   \<and> snd (handleFileFrame True 0 \<lparr>lastPeerActivityAt = 0, peerTimedOut = False\<rparr> ''s''
          (BufferData [0, 0, 0, 0, 0, 0, 0, 0, 170]))
     \<noteq> [FileChunk ''s'' (getUint32 [0, 0, 0, 0, 0, 0, 0, 0, 170] 0)
          (take (min (getUint32 [0, 0, 0, 0, 0, 0, 0, 0, 170] 4)
                     (length [0, 0, 0, 0, 0, 0, 0, 0, 170 :: byte] - 8))
             (drop 8 [0, 0, 0, 0, 0, 0, 0, 0, 170]))]"
  by (simp add: handleFileFrame_def FILE_FRAME_HEADER_BYTES_def emitFileChunk_def
      markPeerActivity_def frameSeq_def framePayload_def getUint32_def Let_def)

text \<open>
  C10. A string message, and a binary message shorter than the eight-byte header, are
  discarded: the handler returns the liveness state it was given and raises no event (no
  \<open>file-chunk\<close>, no status change); the model has no error outcome on these paths because
  the source reaches no statement that can throw before returning.
\<close>

theorem short_or_text_frame_discarded:
  "handleFileFrame hasArrayBuffer now a sid (TextData s) = (a, [])
   \<and> (binaryBytes data = Some b \<and> length b < FILE_FRAME_HEADER_BYTES
        \<longrightarrow> handleFileFrame hasArrayBuffer now a sid data = (a, []))"
proof
  show "handleFileFrame hasArrayBuffer now a sid (TextData s) = (a, [])"
    by (simp add: handleFileFrame_def)
  show "binaryBytes data = Some b \<and> length b < FILE_FRAME_HEADER_BYTES
        \<longrightarrow> handleFileFrame hasArrayBuffer now a sid data = (a, [])"
    by (cases data) (simp_all add: handleFileFrame_def)
qed

theorem short_or_text_frame_discarded_witness:
  "handleFileFrame True 5 \<lparr>lastPeerActivityAt = 0, peerTimedOut = True\<rparr> ''s'' (TextData ''hello'')
     = (\<lparr>lastPeerActivityAt = 0, peerTimedOut = True\<rparr>, [])
   \<and> length [1, 2, 3 :: byte] < FILE_FRAME_HEADER_BYTES
   \<and> handleFileFrame True 5 \<lparr>lastPeerActivityAt = 0, peerTimedOut = True\<rparr> ''s''
       (BlobData [1, 2, 3])
     = (\<lparr>lastPeerActivityAt = 0, peerTimedOut = True\<rparr>, [])"
  using short_or_text_frame_discarded [of True 5 "\<lparr>lastPeerActivityAt = 0, peerTimedOut = True\<rparr>"
      "''s''" "''hello''" "BlobData [1, 2, 3]" "[1, 2, 3]"]
  by (simp add: FILE_FRAME_HEADER_BYTES_def)

section \<open>Properties of the receiver\<close>

lemma map_of_mapDelete:
  "map_of (mapDelete k m) j = (if j = k then None else map_of m j)"
  by (induction m) (auto simp add: mapDelete_def)

lemma set_mapDelete: "set (mapDelete k m) \<subseteq> set m"
  by (auto simp add: mapDelete_def)

lemma commitChunk_fields:
  "expectedSeq (commitChunk r d) = expectedSeq r"
  "pendingChunks (commitChunk r d) = pendingChunks r"
  "commitLog (commitChunk r d) = commitLog r"
  "size_in (commitChunk r d) = size_in r"
  "id_in (commitChunk r d) = id_in r"
  "streamId (commitChunk r d) = streamId r"
  "writer (commitChunk r d) = writer r"
  "accepted (commitChunk r d) = accepted r"
  "cancelled (commitChunk r d) = cancelled r"
  "needsAccept (commitChunk r d) = needsAccept r"
  "received (commitChunk r d) = received r + length d"
  by (simp_all add: commitChunk_def Let_def split: option.splits)

lemma commitChunk_writeQueue:
  "writer r \<Longrightarrow> writeQueue (commitChunk r d) = writeQueue r @ (if d = [] then [] else [d])"
  by (simp add: commitChunk_def Let_def)

lemma drainStep_fields:
  "expectedSeq (drainStep r d) = expectedSeq r + 1"
  "pendingChunks (drainStep r d) = mapDelete (expectedSeq r) (pendingChunks r)"
  "commitLog (drainStep r d) = commitLog r @ [(expectedSeq r, d)]"
  "size_in (drainStep r d) = size_in r"
  "id_in (drainStep r d) = id_in r"
  "streamId (drainStep r d) = streamId r"
  "writer (drainStep r d) = writer r"
  "accepted (drainStep r d) = accepted r"
  "cancelled (drainStep r d) = cancelled r"
  "needsAccept (drainStep r d) = needsAccept r"
  "received (drainStep r d) = received r + length d"
  by (simp_all add: drainStep_def commitChunk_fields)

lemma drainStep_writeQueue:
  "writer r \<Longrightarrow> writeQueue (drainStep r d) = writeQueue r @ (if d = [] then [] else [d])"
  by (simp add: drainStep_def commitChunk_writeQueue)

lemma drain_invariant:
  assumes "P r"
    and "\<And>x d. P x \<Longrightarrow> map_of (pendingChunks x) (expectedSeq x) = Some d \<Longrightarrow> P (drainStep x d)"
  shows "P (drain r)"
  using assms(1)
proof (induction r rule: drain.induct)
  case (1 r)
  show ?case
  proof (cases "map_of (pendingChunks r) (expectedSeq r)")
    case None
    then show ?thesis using "1.prems" by (subst drain.simps) simp
  next
    case (Some d)
    have "P (drainStep r d)" using "1.prems" Some by (rule assms(2))
    with Some have "P (drain (drainStep r d))" by (rule "1.IH")
    then show ?thesis using Some by (subst drain.simps) simp
  qed
qed


lemma drained_refl: "drained r r"
  by (auto simp add: drained_def)

lemma drained_step:
  assumes "drained r0 x" and "map_of (pendingChunks x) (expectedSeq x) = Some d"
  shows "drained r0 (drainStep x d)"
proof -
  from assms(1) obtain ext where
    le: "expectedSeq r0 \<le> expectedSeq x"
    and log: "commitLog x = commitLog r0 @ ext"
    and seqs: "map fst ext = [expectedSeq r0..<expectedSeq x]"
    and dat: "\<forall>e \<in> set ext. map_of (pendingChunks r0) (fst e) = Some (snd e)"
    and pend: "\<forall>j. map_of (pendingChunks x) j =
            (if expectedSeq r0 \<le> j \<and> j < expectedSeq x then None else map_of (pendingChunks r0) j)"
    by (auto simp add: drained_def)
  have orig: "map_of (pendingChunks r0) (expectedSeq x) = Some d"
    using pend assms(2) by (metis less_irrefl)
  let ?ext = "ext @ [(expectedSeq x, d)]"
  have "commitLog (drainStep x d) = commitLog r0 @ ?ext"
    by (simp add: drainStep_fields log)
  moreover have "map fst ?ext = [expectedSeq r0..<expectedSeq (drainStep x d)]"
    using seqs le by (simp add: drainStep_fields)
  moreover have "\<forall>e \<in> set ?ext. map_of (pendingChunks r0) (fst e) = Some (snd e)"
    using dat orig by auto
  moreover have "\<forall>j. map_of (pendingChunks (drainStep x d)) j =
            (if expectedSeq r0 \<le> j \<and> j < expectedSeq (drainStep x d) then None
             else map_of (pendingChunks r0) j)"
    using pend le by (auto simp add: drainStep_fields map_of_mapDelete)
  ultimately show ?thesis
    using le unfolding drained_def by (simp add: drainStep_fields)
qed

lemma drained_drain: "drained r (drain r)"
  by (rule drain_invariant [where P = "drained r"]) (simp_all add: drained_refl drained_step)

lemma ackAccept_fields:
  "expectedSeq (ackAccept r) = expectedSeq r"
  "pendingChunks (ackAccept r) = pendingChunks r"
  "commitLog (ackAccept r) = commitLog r"
  "size_in (ackAccept r) = size_in r"
  "id_in (ackAccept r) = id_in r"
  "streamId (ackAccept r) = streamId r"
  "writer (ackAccept r) = writer r"
  "accepted (ackAccept r) = accepted r"
  "cancelled (ackAccept r) = cancelled r"
  "needsAccept (ackAccept r) = needsAccept r"
  "received (ackAccept r) = received r"
  "writeQueue (ackAccept r) = writeQueue r"
  by (simp_all add: ackAccept_def)

lemma onFileChunk_Some:
  assumes "receiving rx = Some r"
  shows "onFileChunk rx sid seq d =
     (if cancelled r then (rx, None)
      else if needsAccept r \<and> \<not> accepted r then (rx, None)
      else if accepted r \<and> \<not> writer r then
        (cancelIncomingFile rx (id_in r) True ''Couldn't create the save file'', None)
      else if streamId r \<noteq> [] \<and> trim sid \<noteq> [] \<and> \<not> streamIdMatchesBase (streamId r) (trim sid)
        then (rx\<lparr>receiving := Some (ackAccept r)\<rparr>, None)
      else if seq < expectedSeq r then (rx\<lparr>receiving := Some (ackAccept r)\<rparr>, None)
      else if expectedSeq r < seq then
        (rx\<lparr>receiving := Some (if map_of (pendingChunks r) seq \<noteq> None then ackAccept r
                                else (ackAccept r)\<lparr>pendingChunks := pendingChunks r @ [(seq, d)]\<rparr>)\<rparr>, None)
      else (let r2 = drain ((commitChunk (ackAccept r) d)
                              \<lparr>expectedSeq := expectedSeq r + 1, commitLog := commitLog r @ [(seq, d)]\<rparr>)
            in if size_in r2 \<le> received r2
               then (rx\<lparr>receiving := None,
                        ctrlSent := ctrlSent rx @ (if dcOpen rx then [FileDone (id_in r2)] else [])\<rparr>,
                     Some r2)
               else (rx\<lparr>receiving := Some r2\<rparr>, None)))"
  using assms
  by (simp add: onFileChunk_def Let_def ackAccept_fields)


lemma cancelIncomingFile_receiving:
  "receiving rx = Some r \<Longrightarrow>
     receiving (cancelIncomingFile rx fid n reason) = None \<or>
     receiving (cancelIncomingFile rx fid n reason) = Some r"
  by (simp add: cancelIncomingFile_def Let_def)

lemma onFileChunk_preserves:
  assumes P: "\<forall>r. receiving rx = Some r \<longrightarrow> P r"
    and ack: "\<And>x. P x \<Longrightarrow> P (ackAccept x)"
    and buf: "\<And>x. P x \<Longrightarrow> expectedSeq x < seq \<Longrightarrow> map_of (pendingChunks x) seq = None
                \<Longrightarrow> P (x\<lparr>pendingChunks := pendingChunks x @ [(seq, d)]\<rparr>)"
    and com: "\<And>x. P x \<Longrightarrow> seq = expectedSeq x
                \<Longrightarrow> P ((commitChunk x d)\<lparr>expectedSeq := expectedSeq x + 1,
                                           commitLog := commitLog x @ [(seq, d)]\<rparr>)"
    and dr: "\<And>x c. P x \<Longrightarrow> map_of (pendingChunks x) (expectedSeq x) = Some c \<Longrightarrow> P (drainStep x c)"
  shows "(\<forall>rf. snd (onFileChunk rx sid seq d) = Some rf \<longrightarrow> P rf)
       \<and> (\<forall>r'. receiving (fst (onFileChunk rx sid seq d)) = Some r' \<longrightarrow> P r')"
proof (cases "receiving rx")
  case None
  then show ?thesis by (simp add: onFileChunk_def)
next
  case (Some r)
  then have Pr: "P r" using P by simp
  have Pa: "P (ackAccept r)" using Pr by (rule ack)
  have Pb: "expectedSeq r < seq \<Longrightarrow> map_of (pendingChunks r) seq = None
      \<Longrightarrow> P ((ackAccept r)\<lparr>pendingChunks := pendingChunks r @ [(seq, d)]\<rparr>)"
    using buf [OF Pa] by (simp add: ackAccept_fields)
  have Pc: "\<not> seq < expectedSeq r \<Longrightarrow> \<not> expectedSeq r < seq \<Longrightarrow>
      P (drain ((commitChunk (ackAccept r) d)\<lparr>expectedSeq := expectedSeq r + 1,
                                           commitLog := commitLog r @ [(seq, d)]\<rparr>))"
  proof (rule drain_invariant)
    assume "\<not> seq < expectedSeq r" "\<not> expectedSeq r < seq"
    then have "seq = expectedSeq (ackAccept r)" by (simp add: ackAccept_fields)
    from com [OF Pa this]
    show "P ((commitChunk (ackAccept r) d)\<lparr>expectedSeq := expectedSeq r + 1,
                                           commitLog := commitLog r @ [(seq, d)]\<rparr>)"
      by (simp add: ackAccept_fields)
  qed (rule dr)
  have Pk: "\<forall>r'. receiving (cancelIncomingFile rx (id_in r) True ''Couldn't create the save file'')
                = Some r' \<longrightarrow> P r'"
    using cancelIncomingFile_receiving [OF Some] Pr by (metis option.distinct(1) option.inject)
  show ?thesis
    using Some Pr Pa Pb Pc Pk
    by (simp add: onFileChunk_Some [OF Some] Let_def)
qed

lemma onFileChunk_done:
  assumes "snd (onFileChunk rx sid seq d) = Some rf"
  shows "size_in rf \<le> received rf \<and> 0 < expectedSeq rf \<and> receiving (fst (onFileChunk rx sid seq d)) = None"
proof (cases "receiving rx")
  case None
  then show ?thesis using assms by (simp add: onFileChunk_def)
next
  case (Some r)
  let ?c = "(commitChunk (ackAccept r) d)\<lparr>expectedSeq := expectedSeq r + 1,
               commitLog := commitLog r @ [(seq, d)]\<rparr>"
  have "expectedSeq ?c \<le> expectedSeq (drain ?c)"
    using drained_drain [of ?c] by (simp add: drained_def)
  then have pos: "0 < expectedSeq (drain ?c)" by simp
  have "snd (onFileChunk rx sid seq d) = Some rf \<longrightarrow>
     size_in rf \<le> received rf \<and> 0 < expectedSeq rf \<and> receiving (fst (onFileChunk rx sid seq d)) = None"
    using pos by (simp add: onFileChunk_Some [OF Some] Let_def) blast
  then show ?thesis using assms by simp
qed

lemma feedChunks_idle:
  "receiving rx = None \<Longrightarrow> feedChunks rx arr = (rx, None)"
proof (induction arr)
  case Nil
  then show ?case by simp
next
  case (Cons a arr)
  obtain sid seq d where a: "a = (sid, seq, d)" by (cases a)
  show ?case using Cons by (simp add: a onFileChunk_def)
qed

lemma feedChunks_preserves:
  assumes P: "\<forall>r. receiving rx = Some r \<longrightarrow> P r"
    and ack: "\<And>x. P x \<Longrightarrow> P (ackAccept x)"
    and buf: "\<And>x a. a \<in> set arr \<Longrightarrow> P x \<Longrightarrow> expectedSeq x < fst (snd a)
                \<Longrightarrow> map_of (pendingChunks x) (fst (snd a)) = None
                \<Longrightarrow> P (x\<lparr>pendingChunks := pendingChunks x @ [snd a]\<rparr>)"
    and com: "\<And>x a. a \<in> set arr \<Longrightarrow> P x \<Longrightarrow> fst (snd a) = expectedSeq x
                \<Longrightarrow> P ((commitChunk x (snd (snd a)))\<lparr>expectedSeq := expectedSeq x + 1,
                                           commitLog := commitLog x @ [snd a]\<rparr>)"
    and dr: "\<And>x c. P x \<Longrightarrow> map_of (pendingChunks x) (expectedSeq x) = Some c \<Longrightarrow> P (drainStep x c)"
  shows "(\<forall>rf. snd (feedChunks rx arr) = Some rf \<longrightarrow>
            P rf \<and> size_in rf \<le> received rf \<and> 0 < expectedSeq rf)
       \<and> (\<forall>r'. receiving (fst (feedChunks rx arr)) = Some r' \<longrightarrow> P r')"
  using P buf com
proof (induction arr arbitrary: rx)
  case Nil
  then show ?case by simp
next
  case (Cons a arr)
  obtain sid seq d where a: "a = (sid, seq, d)" by (cases a)
  let ?res = "onFileChunk rx sid seq d"
  have step: "(\<forall>rf. snd ?res = Some rf \<longrightarrow> P rf) \<and> (\<forall>r'. receiving (fst ?res) = Some r' \<longrightarrow> P r')"
  proof (rule onFileChunk_preserves [OF Cons.prems(1) ack _ _ dr])
    fix x assume "P x" "expectedSeq x < seq" "map_of (pendingChunks x) seq = None"
    then show "P (x\<lparr>pendingChunks := pendingChunks x @ [(seq, d)]\<rparr>)"
      using Cons.prems(2) [of a x] by (simp add: a)
  next
    fix x assume "P x" "seq = expectedSeq x"
    then show "P ((commitChunk x d)\<lparr>expectedSeq := expectedSeq x + 1,
                                           commitLog := commitLog x @ [(seq, d)]\<rparr>)"
      using Cons.prems(3) [of a x] by (simp add: a)
  qed
  show ?case
  proof (cases "snd ?res")
    case None
    then have eq: "feedChunks rx (a # arr) = feedChunks (fst ?res) arr"
      by (cases ?res) (simp add: a)
    have "(\<forall>rf. snd (feedChunks (fst ?res) arr) = Some rf \<longrightarrow>
            P rf \<and> size_in rf \<le> received rf \<and> 0 < expectedSeq rf)
       \<and> (\<forall>r'. receiving (fst (feedChunks (fst ?res) arr)) = Some r' \<longrightarrow> P r')"
    proof (rule Cons.IH)
      show "\<forall>r. receiving (fst ?res) = Some r \<longrightarrow> P r" using step by simp
    next
      fix x b assume "b \<in> set arr" "P x" "expectedSeq x < fst (snd b)"
        "map_of (pendingChunks x) (fst (snd b)) = None"
      then show "P (x\<lparr>pendingChunks := pendingChunks x @ [snd b]\<rparr>)"
        using Cons.prems(2) [of b x] by simp
    next
      fix x b assume "b \<in> set arr" "P x" "fst (snd b) = expectedSeq x"
      then show "P ((commitChunk x (snd (snd b)))\<lparr>expectedSeq := expectedSeq x + 1,
                                           commitLog := commitLog x @ [snd b]\<rparr>)"
        using Cons.prems(3) [of b x] by simp
    qed
    then show ?thesis by (simp only: eq)
  next
    case (Some rf)
    then have eq: "feedChunks rx (a # arr) = (fst ?res, Some rf)"
      by (cases ?res) (simp add: a)
    show ?thesis
      using step Some onFileChunk_done [of rx sid seq d rf] by (simp add: eq)
  qed
qed

lemma tracks_ack: "tracks fr x \<Longrightarrow> tracks fr (ackAccept x)"
  by (simp add: tracks_def ackAccept_fields)

lemma tracks_buffer:
  "tracks fr x \<Longrightarrow> k < length fr \<Longrightarrow>
     tracks fr (x\<lparr>pendingChunks := pendingChunks x @ [(k, fr ! k)]\<rparr>)"
  by (simp add: tracks_def)

lemma tracks_commit:
  assumes "tracks fr x" and "expectedSeq x < length fr"
  shows "tracks fr ((commitChunk x (fr ! expectedSeq x))
           \<lparr>expectedSeq := expectedSeq x + 1,
            commitLog := commitLog x @ [(expectedSeq x, fr ! expectedSeq x)]\<rparr>)"
  using assms
  by (simp add: tracks_def commitChunk_fields commitChunk_writeQueue take_Suc_conv_app_nth)

lemma tracks_drainStep:
  assumes "tracks fr x" and "map_of (pendingChunks x) (expectedSeq x) = Some c"
  shows "tracks fr (drainStep x c)"
proof -
  have mem: "(expectedSeq x, c) \<in> set (pendingChunks x)"
    using assms(2) by (rule map_of_SomeD)
  then have lt: "expectedSeq x < length fr" and c: "c = fr ! expectedSeq x"
    using assms(1) by (auto simp add: tracks_def)
  have sub: "set (mapDelete (expectedSeq x) (pendingChunks x)) \<subseteq> set (pendingChunks x)"
    by (rule set_mapDelete)
  show ?thesis
    using assms(1) lt sub
    by (auto simp add: tracks_def drainStep_fields drainStep_writeQueue c take_Suc_conv_app_nth)
qed

lemma sum_take_less:
  assumes "[] \<notin> set fr" and "e < length fr"
  shows "sum_list (map length (take e fr)) < sum_list (map length (fr :: bytes list))"
proof -
  have "fr = take e fr @ drop e fr" by simp
  then have "sum_list (map length fr) =
      sum_list (map length (take e fr)) + sum_list (map length (drop e fr))"
    by (metis map_append sum_list_append)
  moreover have "drop e fr = fr ! e # drop (Suc e) fr"
    using assms(2) by (simp add: Cons_nth_drop_Suc)
  moreover have "fr ! e \<noteq> []" using assms by (metis nth_mem)
  ultimately show ?thesis by simp
qed

lemma tracks_complete:
  assumes "tracks fr rf" and "senderFrames fr" and "size_in rf \<le> received rf" and "0 < expectedSeq rf"
  shows "expectedSeq rf = length fr"
proof (rule ccontr)
  assume ne: "expectedSeq rf \<noteq> length fr"
  then have lt: "expectedSeq rf < length fr" using assms(1) by (simp add: tracks_def)
  show False
  proof (cases "fr = [[]]")
    case True
    then show False using lt assms(4) by simp
  next
    case False
    then have "[] \<notin> set fr" using assms(2) by (simp add: senderFrames_def)
    from sum_take_less [OF this lt] show False
      using assms(1,3) by (simp add: tracks_def)
  qed
qed

lemma feedChunks_tracks:
  assumes "\<forall>r. receiving rx = Some r \<longrightarrow> tracks fr r" and "fromFrames fr arr"
  shows "\<forall>rf. snd (feedChunks rx arr) = Some rf \<longrightarrow>
            tracks fr rf \<and> size_in rf \<le> received rf \<and> 0 < expectedSeq rf"
proof -
  have "(\<forall>rf. snd (feedChunks rx arr) = Some rf \<longrightarrow>
            tracks fr rf \<and> size_in rf \<le> received rf \<and> 0 < expectedSeq rf)
       \<and> (\<forall>r'. receiving (fst (feedChunks rx arr)) = Some r' \<longrightarrow> tracks fr r')"
  proof (rule feedChunks_preserves [where P = "tracks fr", OF assms(1)])
    fix x assume "tracks fr x" then show "tracks fr (ackAccept x)" by (rule tracks_ack)
  next
    fix x a assume a: "a \<in> set arr" and x: "tracks fr x"
    from a assms(2) have k: "fst (snd a) < length fr" and d: "snd (snd a) = fr ! fst (snd a)"
      by (auto simp add: fromFrames_def)
    have "snd a = (fst (snd a), fr ! fst (snd a))" using d by (metis prod.collapse)
    then show "tracks fr (x\<lparr>pendingChunks := pendingChunks x @ [snd a]\<rparr>)"
      using tracks_buffer [OF x k] by simp
  next
    fix x a assume a: "a \<in> set arr" and x: "tracks fr x" and e: "fst (snd a) = expectedSeq x"
    from a assms(2) have k: "fst (snd a) < length fr" and d: "snd (snd a) = fr ! fst (snd a)"
      by (auto simp add: fromFrames_def)
    have sa: "snd a = (expectedSeq x, fr ! expectedSeq x)" using d e by (metis prod.collapse)
    show "tracks fr ((commitChunk x (snd (snd a)))\<lparr>expectedSeq := expectedSeq x + 1,
                                           commitLog := commitLog x @ [snd a]\<rparr>)"
      using tracks_commit [OF x] k e by (simp add: sa)
  next
    fix x c assume "tracks fr x" "map_of (pendingChunks x) (expectedSeq x) = Some c"
    then show "tracks fr (drainStep x c)" by (rule tracks_drainStep)
  qed
  then show ?thesis by simp
qed


lemma start_tracks:
  assumes "receiving rx0 = None" and "trim fid \<noteq> []"
  shows "\<forall>r. receiving (acceptFile (onFileMeta rx0 fid sid sc nm sz)) = Some r \<longrightarrow>
            inOrder r \<and> (sz = sum_list (map length fr) \<longrightarrow> tracks fr r)"
  using assms
  by (simp add: acceptFile_def onFileMeta_def newIncoming_def inOrder_def tracks_def)







lemma concat_filter_nonempty: "concat (filter (\<lambda>d. d \<noteq> []) xs) = concat xs"
  by (induction xs) simp_all

lemma onFileChunk_sent:
  "snd (onFileChunk rx sid seq d) = Some rf \<longrightarrow>
     ctrlSent (fst (onFileChunk rx sid seq d)) =
       ctrlSent rx @ (if dcOpen rx then [FileDone (id_in rf)] else [])"
  "snd (onFileChunk rx sid seq d) = None \<longrightarrow>
     ctrlSent (fst (onFileChunk rx sid seq d)) \<noteq> ctrlSent rx @ [FileDone i]"
proof -
  show "snd (onFileChunk rx sid seq d) = Some rf \<longrightarrow>
     ctrlSent (fst (onFileChunk rx sid seq d)) =
       ctrlSent rx @ (if dcOpen rx then [FileDone (id_in rf)] else [])"
  proof (cases "receiving rx")
    case None
    then show ?thesis by (simp add: onFileChunk_def)
  next
    case (Some r)
    show ?thesis by (simp add: onFileChunk_Some [OF Some] Let_def)
  qed
  show "snd (onFileChunk rx sid seq d) = None \<longrightarrow>
     ctrlSent (fst (onFileChunk rx sid seq d)) \<noteq> ctrlSent rx @ [FileDone i]"
  proof (cases "receiving rx")
    case None
    then show ?thesis by (simp add: onFileChunk_def)
  next
    case (Some r)
    show ?thesis
      by (simp add: onFileChunk_Some [OF Some] Let_def cancelIncomingFile_def Some)
  qed
qed

text \<open>
  C3, as the code has it. The completion block is entered on \<open>received >= size\<close>:
  whenever \<open>onFileChunk\<close> completes a transfer \<open>rf\<close> it has \<open>size \<le> received\<close>, clears
  \<open>peer.receiving\<close> and sends \<open>file-done\<close> (on an open control channel), and a call that
  does not complete sends no \<open>file-done\<close>. When the chunks that arrived are the frames of a
  sender for a file of the announced size, \<open>received = size\<close> at that moment and the bytes
  queued for the writer are the file.
\<close>

theorem file_done_byte_count:
  "(snd (onFileChunk rx sid seq d) = Some rf \<longrightarrow>
       size_in rf \<le> received rf
     \<and> receiving (fst (onFileChunk rx sid seq d)) = None
     \<and> ctrlSent (fst (onFileChunk rx sid seq d)) =
         ctrlSent rx @ (if dcOpen rx then [FileDone (id_in rf)] else []))
   \<and> (snd (onFileChunk rx sid seq d) = None \<longrightarrow>
       ctrlSent (fst (onFileChunk rx sid seq d)) \<noteq> ctrlSent rx @ [FileDone i])
   \<and> (receiving rx0 = None \<and> trim fid \<noteq> []
        \<and> senderFrames fr \<and> sz = sum_list (map length fr) \<and> fromFrames fr arr
        \<and> snd (feedChunks (acceptFile (onFileMeta rx0 fid sid0 sc nm sz)) arr) = Some rf' \<longrightarrow>
       received rf' = size_in rf' \<and> size_in rf' = sz \<and> concat (writeQueue rf') = concat fr)"
proof (intro conjI impI)
  assume a: "snd (onFileChunk rx sid seq d) = Some rf"
  from onFileChunk_done [OF a]
  show "size_in rf \<le> received rf" and "receiving (fst (onFileChunk rx sid seq d)) = None"
    by simp_all
  from a onFileChunk_sent(1) [of rx sid seq d rf]
  show "ctrlSent (fst (onFileChunk rx sid seq d)) =
         ctrlSent rx @ (if dcOpen rx then [FileDone (id_in rf)] else [])"
    by simp
next
  assume "snd (onFileChunk rx sid seq d) = None"
  with onFileChunk_sent(2) [of rx sid seq d i]
  show "ctrlSent (fst (onFileChunk rx sid seq d)) \<noteq> ctrlSent rx @ [FileDone i]"
    by simp
next
  assume b: "receiving rx0 = None \<and> trim fid \<noteq> []
        \<and> senderFrames fr \<and> sz = sum_list (map length fr) \<and> fromFrames fr arr
        \<and> snd (feedChunks (acceptFile (onFileMeta rx0 fid sid0 sc nm sz)) arr) = Some rf'"
  let ?rx1 = "acceptFile (onFileMeta rx0 fid sid0 sc nm sz)"
  from b have b1: "receiving rx0 = None" and b2: "trim fid \<noteq> []" and b3: "senderFrames fr"
    and b4: "sz = sum_list (map length fr)" and b5: "fromFrames fr arr"
    and b6: "snd (feedChunks ?rx1 arr) = Some rf'"
    by blast+
  have start: "\<forall>r. receiving ?rx1 = Some r \<longrightarrow> tracks fr r"
    using start_tracks [OF b1 b2, of sid0 sc nm sz fr] b4 by blast
  have t: "tracks fr rf' \<and> size_in rf' \<le> received rf' \<and> 0 < expectedSeq rf'"
    using feedChunks_tracks [OF start b5] b6 by blast
  then have e: "expectedSeq rf' = length fr"
    using b3 by (auto intro: tracks_complete)
  show "received rf' = size_in rf'" using t e by (simp add: tracks_def)
  show "size_in rf' = sz" using t b4 by (simp add: tracks_def)
  show "concat (writeQueue rf') = concat fr"
    using t e by (simp add: tracks_def concat_filter_nonempty)
qed

text \<open>
  C3, as the claim states it, fails when the peer sends more bytes than it announced: for
  an accepted transfer announced with size 5, one chunk of 10 bytes with sequence number 0
  makes the receiver send \<open>file-done\<close> with \<open>received = 10\<close>.
\<close>

theorem file_done_overshoot_counterexample:
  "ctrlSent (fst (onFileChunk
       (acceptFile (onFileMeta \<lparr>receiving = None, dcOpen = True, ctrlSent = [], closedPrefixes = []\<rparr>
          ''f'' ''s'' 1 ''a.bin'' 5))
       ''s'' 0 [1, 2, 3, 4, 5, 6, 7, 8, 9, 10]))
     = [FileAccept ''f'', FileDone ''f'']
   \<and> map_option received (snd (onFileChunk
       (acceptFile (onFileMeta \<lparr>receiving = None, dcOpen = True, ctrlSent = [], closedPrefixes = []\<rparr>
          ''f'' ''s'' 1 ''a.bin'' 5))
       ''s'' 0 [1, 2, 3, 4, 5, 6, 7, 8, 9, 10])) = Some 10
   \<and> map_option size_in (snd (onFileChunk
       (acceptFile (onFileMeta \<lparr>receiving = None, dcOpen = True, ctrlSent = [], closedPrefixes = []\<rparr>
          ''f'' ''s'' 1 ''a.bin'' 5))
       ''s'' 0 [1, 2, 3, 4, 5, 6, 7, 8, 9, 10])) = Some 5"
  by (simp add: onFileChunk_def acceptFile_def onFileMeta_def newIncoming_def trim_def isJsSpace_def
      streamIdMatchesBase_def startsWith_def ackAccept_def commitChunk_def drain.simps Let_def)

lemmas rx_eval = onFileChunk_def acceptFile_def onFileMeta_def newIncoming_def trim_def isJsSpace_def
      streamIdMatchesBase_def startsWith_def ackAccept_def commitChunk_def drain.simps drainStep_def
      mapDelete_def Let_def readyFor_def transferAfter_def senderFrames_def fromFrames_def
      examplePeer_def exampleFrames_def exampleArrivals_def


lemma example_run:
  "map_option commitLog (snd (feedChunks examplePeer exampleArrivals))
     = Some [(0, [1, 2]), (1, [3, 4]), (2, [5])]"
  by (simp add: rx_eval)


theorem file_done_byte_count_witness:
  "snd (onFileChunk (fst (feedChunks examplePeer (butlast exampleArrivals))) ''s'' 0 [1, 2]) \<noteq> None
   \<and> map_option size_in
        (snd (onFileChunk (fst (feedChunks examplePeer (butlast exampleArrivals))) ''s'' 0 [1, 2]))
       = Some 5
   \<and> map_option received
        (snd (onFileChunk (fst (feedChunks examplePeer (butlast exampleArrivals))) ''s'' 0 [1, 2]))
       = Some 5
   \<and> ctrlSent (fst (onFileChunk (fst (feedChunks examplePeer (butlast exampleArrivals))) ''s'' 0 [1, 2]))
       = ctrlSent (fst (feedChunks examplePeer (butlast exampleArrivals))) @ [FileDone ''f'']
   \<and> snd (onFileChunk examplePeer ''s:1'' 1 [3, 4]) = None
   \<and> ctrlSent (fst (onFileChunk examplePeer ''s:1'' 1 [3, 4])) \<noteq> ctrlSent examplePeer @ [FileDone ''f'']
   \<and> senderFrames exampleFrames
   \<and> sum_list (map length exampleFrames) = 5
   \<and> fromFrames exampleFrames exampleArrivals
   \<and> snd (feedChunks examplePeer exampleArrivals) \<noteq> None
   \<and> received (the (snd (feedChunks examplePeer exampleArrivals)))
       = size_in (the (snd (feedChunks examplePeer exampleArrivals)))
   \<and> size_in (the (snd (feedChunks examplePeer exampleArrivals))) = 5
   \<and> concat (writeQueue (the (snd (feedChunks examplePeer exampleArrivals)))) = concat exampleFrames"
proof -
  let ?p0 = "\<lparr>receiving = None, dcOpen = True, ctrlSent = [], closedPrefixes = []\<rparr>"
  let ?rxc = "fst (feedChunks examplePeer (butlast exampleArrivals))"
  let ?res = "onFileChunk ?rxc ''s'' 0 [1, 2]"
  let ?rf = "the (snd ?res)"
  let ?rf' = "the (snd (feedChunks examplePeer exampleArrivals))"
  have e1: "map_option size_in (snd ?res) = Some 5" "map_option received (snd ?res) = Some 5"
      "map_option id_in (snd ?res) = Some ''f''" "dcOpen ?rxc"
    by (simp_all add: rx_eval)
  then have h1: "snd ?res = Some ?rf" and idf: "id_in ?rf = ''f''" by auto
  have h2: "snd (onFileChunk examplePeer ''s:1'' 1 [3, 4]) = None" by (simp add: rx_eval)
  have h4: "snd (feedChunks (acceptFile (onFileMeta ?p0 ''f'' ''s'' 2 ''a.bin'' 5)) exampleArrivals)
      = Some ?rf'"
    using example_run by (auto simp add: examplePeer_def)
  have h5: "senderFrames exampleFrames" "fromFrames exampleFrames exampleArrivals"
      "(5 :: nat) = sum_list (map length exampleFrames)" "receiving ?p0 = None" "trim ''f'' \<noteq> []"
    by (simp_all add: rx_eval)
  note T1 = file_done_byte_count [where rx = ?rxc and sid = "''s''" and seq = 0 and d = "[1, 2]"
      and rf = ?rf and i = "''f''" and ?rx0.0 = ?p0 and fid = "''f''" and ?sid0.0 = "''s''" and sc = 2
      and nm = "''a.bin''" and sz = 5 and arr = exampleArrivals and rf' = ?rf' and fr = exampleFrames]
  note T2 = file_done_byte_count [where rx = examplePeer and sid = "''s:1''" and seq = 1
      and d = "[3, 4]" and i = "''f''"]
  have c1: "ctrlSent (fst ?res) = ctrlSent ?rxc @ [FileDone ''f'']"
    using T1 h1 e1(4) idf by simp
  have c2: "ctrlSent (fst (onFileChunk examplePeer ''s:1'' 1 [3, 4])) \<noteq> ctrlSent examplePeer @ [FileDone ''f'']"
    using T2 h2 by blast
  have c3: "received ?rf' = size_in ?rf' \<and> size_in ?rf' = 5 \<and> concat (writeQueue ?rf') = concat exampleFrames"
    using T1 h4 h5 by (simp only: examplePeer_def [symmetric]) blast
  have n1: "snd ?res \<noteq> None" using h1 by blast
  have n2: "snd (feedChunks examplePeer exampleArrivals) \<noteq> None" using example_run by auto
  have n3: "sum_list (map length exampleFrames) = 5" using h5(3) by simp
  show ?thesis
    using n1 e1(1,2) c1 h2 c2 h5(1) n3 h5(2) n2 c3 by blast
qed

section \<open>Properties of the sender\<close>

lemma getSendChunkSize_bounds:
  "1 \<le> getSendChunkSize m h" "getSendChunkSize m h \<le> FILE_CHUNK_SIZE"
  by (auto simp add: getSendChunkSize_def FILE_CHUNK_SIZE_def Let_def)

lemma frameCount_less: "0 < c \<Longrightarrow> i < frameCount S c \<longleftrightarrow> i * c < S"
proof -
  assume c: "0 < c"
  have "i < frameCount S c \<longleftrightarrow> Suc i \<le> (S + c - 1) div c"
    by (simp add: frameCount_def Suc_le_eq)
  also have "\<dots> \<longleftrightarrow> Suc i * c \<le> S + c - 1"
    using c by (simp add: less_eq_div_iff_mult_less_eq)
  also have "\<dots> \<longleftrightarrow> i * c < S" using c by auto
  finally show ?thesis .
qed

lemma pump_invariant:
  assumes step: "\<And>c dat p idx rr. P c dat p \<Longrightarrow> offset p < length dat \<Longrightarrow>
        P c dat (p\<lparr>rrIndex := rr, offset := min (offset p + c) (length dat), seqNo := seqNo p + 1,
             sentFrames := sentFrames p @
               [(idx, mkFrame (seqNo p) dat (offset p) (min (offset p + c) (length dat)))]\<rparr>)"
    and adj: "\<And>c dat p rr. P c dat p \<Longrightarrow> P c dat (queueFullAdjust c (p\<lparr>rrIndex := rr\<rparr>))"
    and rr: "\<And>c dat p rr. P c dat p \<Longrightarrow> P c dat (p\<lparr>rrIndex := rr\<rparr>)"
  shows "P c dat p \<Longrightarrow> P c dat (pumpOf (pumpOuter c dat os p))
            \<and> (\<forall>q. pumpOuter c dat os p = Done q \<longrightarrow> \<not> offset q < length dat)"
    and "P c dat p \<Longrightarrow> P c dat (pumpOf (pumpInner c dat os p))
            \<and> (\<forall>q. pumpInner c dat os p = Done q \<longrightarrow> \<not> offset q < length dat)"
proof (induction c dat os p and c dat os p rule: pumpOuter_pumpInner.induct)
  case (1 c dat p)
  then show ?case by simp
next
  case (2 c dat ob os p)
  show ?case
  proof (cases "offset p < length dat \<and> \<not> sigAborted ob \<and> ctrlOpen ob \<and> openChannels (chans ob) \<noteq> []")
    case False
    then show ?thesis using "2.prems" by auto
  next
    case True
    show ?thesis
    proof (cases "allFull (highWaterMark p) (chans ob)")
      case full: True
      show ?thesis
      proof (cases "waitAborted ob")
        case True
        then show ?thesis using \<open>offset p < length dat \<and> _\<close> full "2.prems" by simp
      next
        case False
        then show ?thesis
          using \<open>offset p < length dat \<and> _\<close> full "2.prems" "2.IH"(1) by simp
      qed
    next
      case False
      then show ?thesis
        using True "2.prems" "2.IH"(2) by simp
    qed
  qed
next
  case (3 c dat p)
  then show ?case by simp
next
  case (4 c dat ob os p)
  show ?case
  proof (cases "offset p < length dat")
    case False
    then show ?thesis using "4.prems" by simp
  next
    case lt: True
    show ?thesis
    proof (cases "inBudget ob")
      case False
      then show ?thesis using lt "4.prems" "4.IH"(1) by simp
    next
      case budget: True
      show ?thesis
      proof (cases "\<not> sigAborted ob \<and> ctrlOpen ob")
        case False
        then show ?thesis using lt budget "4.prems" by auto
      next
        case ok: True
        show ?thesis
        proof (cases "pickChannel (highWaterMark p) (rrIndex p) (chans ob)")
          case None
          show ?thesis
          proof (cases "waitAborted ob")
            case True
            then show ?thesis using lt budget ok None "4.prems" by simp
          next
            case False
            then show ?thesis using lt budget ok None "4.prems" "4.IH"(2) by simp
          qed
        next
          case (Some a)
          obtain idx r where a: "a = (idx, r)" by (cases a)
          let ?e = "min (offset p + c) (length dat)"
          let ?p1 = "p\<lparr>rrIndex := r\<rparr>"
          show ?thesis
          proof (cases "sendResult ob")
            case SendOk
            let ?p2 = "?p1\<lparr>offset := ?e, seqNo := seqNo p + 1,
                 sentFrames := sentFrames p @ [(idx, mkFrame (seqNo p) dat (offset p) ?e)]\<rparr>"
            have P2: "P c dat ?p2" using step [OF "4.prems" lt, where rr = r and idx = idx] by simp
            have eq: "pumpInner c dat (ob # os) p = pumpInner c dat os ?p2"
              using lt budget ok Some a SendOk by (simp add: Let_def)
            have "P c dat (pumpOf (pumpInner c dat os ?p2))
                \<and> (\<forall>q. pumpInner c dat os ?p2 = Done q \<longrightarrow> \<not> offset q < length dat)"
              using lt budget ok Some a SendOk P2
              by (intro "4.IH"(3)) (simp_all add: a)
            then show ?thesis unfolding eq .
          next
            case SendQueueFull
            have P2: "P c dat (queueFullAdjust c ?p1)" using adj [OF "4.prems", where rr = r] .
            show ?thesis
            proof (cases "waitAborted ob")
              case True
              then show ?thesis
                using lt budget ok Some a SendQueueFull P2 by (simp add: Let_def)
            next
              case False
              have eq: "pumpInner c dat (ob # os) p = pumpOuter c dat os (queueFullAdjust c ?p1)"
                using lt budget ok Some a SendQueueFull False by (simp add: Let_def)
              have "P c dat (pumpOf (pumpOuter c dat os (queueFullAdjust c ?p1)))
                \<and> (\<forall>q. pumpOuter c dat os (queueFullAdjust c ?p1) = Done q \<longrightarrow> \<not> offset q < length dat)"
                using lt budget ok Some a SendQueueFull False P2
                by (intro "4.IH"(4)) (simp_all add: a)
              then show ?thesis unfolding eq .
            qed
          next
            case SendOther
            then show ?thesis
              using lt budget ok Some a rr [OF "4.prems", where rr = r] by (simp add: Let_def)
          qed
        qed
      qed
    qed
  qed
qed

lemma chunkPayload_length:
  "length (chunkPayload c dat i) = min ((i + 1) * c) (length dat) - i * c"
  by (auto simp add: chunkPayload_def slice_def min_def)

lemma mkFrame_wireFrame:
  "mkFrame i dat (i * c) (min (i * c + c) (length dat)) = wireFrame c dat i"
proof -
  let ?e = "min (i * c + c) (length dat)"
  have "length (take (?e - i * c) (drop (i * c) dat)) = ?e - i * c" by auto
  then show ?thesis
    by (simp add: mkFrame_def wireFrame_def chunkPayload_def slice_def add.commute)
qed

lemma mkFrame_wireFrame':
  "mkFrame i dat (i * c) (min (c + i * c) (length dat)) = wireFrame c dat i"
  using mkFrame_wireFrame [of i dat c] by (simp add: add.commute)

lemma pumpInv_step:
  assumes "0 < c \<and> pumpInv c dat p" and "offset p < length dat"
  shows "0 < c \<and> pumpInv c dat
        (p\<lparr>rrIndex := rr, offset := min (offset p + c) (length dat), seqNo := seqNo p + 1,
             sentFrames := sentFrames p @
               [(idx, mkFrame (seqNo p) dat (offset p) (min (offset p + c) (length dat)))]\<rparr>)"
proof -
  from assms have c: "0 < c" and off: "offset p = min (seqNo p * c) (length dat)"
    and le: "seqNo p \<le> frameCount (length dat) c"
    and hw: "minHighWaterMark c \<le> highWaterMark p"
    and fr: "map snd (sentFrames p) = map (wireFrame c dat) [0..<seqNo p]"
    by (simp_all add: pumpInv_def)
  from off assms(2) have lt: "seqNo p * c < length dat" and off': "offset p = seqNo p * c"
    by (simp_all add: min_def split: if_splits)
  then have "seqNo p < frameCount (length dat) c" using c by (simp add: frameCount_less)
  then show ?thesis
    using c hw fr by (simp add: pumpInv_def off' mkFrame_wireFrame add.commute [of c])
qed

lemma pumpInv_adjust:
  "0 < c \<and> pumpInv c dat p \<Longrightarrow> 0 < c \<and> pumpInv c dat (queueFullAdjust c (p\<lparr>rrIndex := rr\<rparr>))"
  by (simp add: pumpInv_def queueFullAdjust_def Let_def)

lemma pumpInv_rr:
  "0 < c \<and> pumpInv c dat p \<Longrightarrow> 0 < c \<and> pumpInv c dat (p\<lparr>rrIndex := rr\<rparr>)"
  by (simp add: pumpInv_def)

lemma pumpInv_initial: "pumpInv c dat (initialPump c dcHigh n)"
  by (simp add: pumpInv_def initialPump_def Let_def)

lemma pumpInv_done:
  assumes "0 < c" and "pumpInv c dat q" and "\<not> offset q < length dat"
  shows "seqNo q = frameCount (length dat) c"
proof -
  from assms(2,3) have "\<not> seqNo q * c < length dat" by (simp add: pumpInv_def)
  then have "\<not> seqNo q < frameCount (length dat) c" using assms(1) by (simp add: frameCount_less)
  then show ?thesis using assms(2) by (simp add: pumpInv_def)
qed

lemma pumpOuter_frames:
  assumes "0 < c" and "pumpInv c dat p"
  shows "pumpInv c dat (pumpOf (pumpOuter c dat os p))"
    and "pumpOuter c dat os p = Done q \<Longrightarrow> seqNo q = frameCount (length dat) c"
proof -
  have *: "(0 < c \<and> pumpInv c dat (pumpOf (pumpOuter c dat os p)))
      \<and> (\<forall>q. pumpOuter c dat os p = Done q \<longrightarrow> \<not> offset q < length dat)"
  proof (rule pump_invariant(1) [where P = "\<lambda>c dat p. 0 < c \<and> pumpInv c dat p"])
    show "0 < c \<and> pumpInv c dat p" using assms by simp
  qed (rule pumpInv_step pumpInv_adjust pumpInv_rr; assumption)+
  then show inv: "pumpInv c dat (pumpOf (pumpOuter c dat os p))" by simp
  assume d: "pumpOuter c dat os p = Done q"
  with * inv have "pumpInv c dat q" "\<not> offset q < length dat" by auto
  with assms(1) show "seqNo q = frameCount (length dat) c" by (intro pumpInv_done)
qed

lemma pickChannel_calm:
  "0 < high \<Longrightarrow> pickChannel high rr (chans calmObs) = Some (0, 0)"
  by (simp add: pickChannel_def calmObs_def)

lemma calm_inner:
  assumes "0 < c" and "pumpInv c dat p" and "frameCount (length dat) c - seqNo p \<le> k"
  shows "\<exists>q. pumpInner c dat (replicate k calmObs) p = Done q"
  using assms(2,3)
proof (induction k arbitrary: p)
  case 0
  then have "\<not> seqNo p < frameCount (length dat) c" by simp
  then have "\<not> seqNo p * c < length dat" using assms(1) by (simp add: frameCount_less)
  then have "\<not> offset p < length dat" using 0 by (simp add: pumpInv_def)
  then show ?case by simp
next
  case (Suc k)
  show ?case
  proof (cases "offset p < length dat")
    case False
    then show ?thesis by simp
  next
    case True
    let ?e = "min (offset p + c) (length dat)"
    let ?p2 = "p\<lparr>rrIndex := 0, offset := ?e, seqNo := seqNo p + 1,
                 sentFrames := sentFrames p @ [(0, mkFrame (seqNo p) dat (offset p) ?e)]\<rparr>"
    have hw: "0 < highWaterMark p"
      using Suc.prems(1) by (simp add: pumpInv_def minHighWaterMark_def)
    have inv2: "pumpInv c dat ?p2"
      using pumpInv_step [of c dat p 0 0] assms(1) Suc.prems(1) True by simp
    have "frameCount (length dat) c - seqNo ?p2 \<le> k" using Suc.prems(2) by simp
    from Suc.IH [OF inv2 this] obtain q where q: "pumpInner c dat (replicate k calmObs) ?p2 = Done q" ..
    have fields: "inBudget calmObs" "\<not> sigAborted calmObs" "ctrlOpen calmObs"
        "sendResult calmObs = SendOk"
      by (simp_all add: calmObs_def)
    have "pumpInner c dat (replicate (Suc k) calmObs) p = pumpInner c dat (replicate k calmObs) ?p2"
      using True pickChannel_calm [OF hw] fields by (simp add: Let_def)
    then show ?thesis using q by simp
  qed
qed

lemma calm_outer:
  assumes "0 < c" and "pumpInv c dat p" and "frameCount (length dat) c - seqNo p \<le> k"
  shows "\<exists>q. pumpOuter c dat (replicate (Suc k) calmObs) p = Done q"
proof (cases "offset p < length dat")
  case False
  then show ?thesis by simp
next
  case True
  have hw: "0 < highWaterMark p"
    using assms(2) by (simp add: pumpInv_def minHighWaterMark_def)
  have fields: "\<not> sigAborted calmObs" "ctrlOpen calmObs" "openChannels (chans calmObs) \<noteq> []"
      "\<not> allFull (highWaterMark p) (chans calmObs)"
    using hw by (simp_all add: calmObs_def openChannels_def allFull_def)
  have "pumpOuter c dat (replicate (Suc k) calmObs) p = pumpInner c dat (replicate k calmObs) p"
    using True fields by simp
  then show ?thesis using calm_inner [OF assms] by simp
qed

lemma mod_256_split: "(x :: nat) mod (256 * q) = 256 * (x div 256 mod q) + x mod 256"
  by (rule mod_mult2_eq)

lemma be_value:
  "(((v div 2 ^ 24 mod 256) * 256 + v div 2 ^ 16 mod 256) * 256 + v div 2 ^ 8 mod 256) * 256
     + v mod 256 = (v :: nat) mod 2 ^ 32"
proof -
  have d16: "v div 256 div 256 = v div 65536" and d24: "v div 65536 div 256 = v div 16777216"
    by (simp_all add: div_mult2_eq [symmetric])
  have a: "v mod 2 ^ 32 = 256 * (v div 256 mod 2 ^ 24) + v mod 256"
    using mod_256_split [of v "2 ^ 24"] by simp
  have b: "v div 256 mod 2 ^ 24 = 256 * (v div 2 ^ 16 mod 2 ^ 16) + v div 256 mod 256"
    using mod_256_split [of "v div 256" "2 ^ 16"] by (simp add: d16)
  have c: "v div 2 ^ 16 mod 2 ^ 16 = 256 * (v div 2 ^ 24 mod 256) + v div 2 ^ 16 mod 256"
    using mod_256_split [of "v div 2 ^ 16" "256"] by (simp add: d24)
  show ?thesis unfolding a b c by simp
qed

lemma unat_byte_of_nat: "unat (of_nat n :: byte) = n mod 256"
  by (simp add: unat_of_nat)

lemma getUint32_setUint32_0: "getUint32 (setUint32 v @ rest) 0 = v mod 2 ^ 32"
  using be_value [of v] by (simp add: getUint32_def setUint32_def unat_byte_of_nat)

lemma getUint32_setUint32_4: "getUint32 (setUint32 a @ setUint32 v @ rest) 4 = v mod 2 ^ 32"
  using be_value [of v] by (simp add: getUint32_def setUint32_def unat_byte_of_nat)

lemma length_setUint32: "length (setUint32 v) = 4"
  by (simp add: setUint32_def)

lemma frameSeq_wireFrame: "frameSeq (wireFrame c dat i) = i mod 2 ^ 32"
  by (simp add: frameSeq_def wireFrame_def getUint32_setUint32_0)

lemma framePayload_frame:
  assumes "length pl < 2 ^ 32"
  shows "framePayload (setUint32 a @ setUint32 (length pl) @ pl) = pl"
  using assms
  by (simp add: framePayload_def getUint32_setUint32_4 length_setUint32 FILE_FRAME_HEADER_BYTES_def)

lemma framePayload_wireFrame:
  assumes "c \<le> FILE_CHUNK_SIZE"
  shows "framePayload (wireFrame c dat i) = chunkPayload c dat i"
proof -
  have "length (chunkPayload c dat i) \<le> c" by (simp add: chunkPayload_length)
  also have "c < 2 ^ 32" using assms by (simp add: FILE_CHUNK_SIZE_def)
  finally show ?thesis unfolding wireFrame_def by (rule framePayload_frame)
qed

lemma sendEmpty_done:
  "sendEmpty dc0 os p = Done q \<Longrightarrow> sentFrames q = sentFrames p @ [(dc0, setUint32 0 @ setUint32 0)]"
proof (induction os)
  case Nil
  then show ?case by simp
next
  case (Cons ob os)
  then show ?case by (cases "sendResult ob") (auto split: if_splits)
qed

lemma firstOpen_calm: "firstOpen (chans calmObs) = Some 0"
  by (simp add: firstOpen_def calmObs_def)

lemma isDone_iff: "isDone out \<longleftrightarrow> (\<exists>q. out = Done q)"
  by (cases out) simp_all

lemma sendFileChunks_nonempty:
  assumes "dat \<noteq> []"
  shows "sendFileChunks maxMsg dcHigh dat ob os =
     (if \<not> ctrlOpen ob then Threw ConnectionNotEstablished noPump
      else if openChannels (chans ob) = [] then Threw FileChannelNotReady noPump
      else if sigAborted ob then Threw AbortError noPump
      else pumpOuter (getSendChunkSize maxMsg FILE_FRAME_HEADER_BYTES) dat os
             (initialPump (getSendChunkSize maxMsg FILE_FRAME_HEADER_BYTES) dcHigh
                (length (openChannels (chans ob)))))"
  using assms by (simp add: sendFileChunks_def Let_def)

lemma sendFileChunks_prefix:
  fixes maxMsg dcHigh :: nat and dat :: bytes and ob :: obs and os :: "obs list"
  defines "c \<equiv> getSendChunkSize maxMsg FILE_FRAME_HEADER_BYTES"
  defines "out \<equiv> sendFileChunks maxMsg dcHigh dat ob os"
  assumes "dat \<noteq> []"
  shows "seqNo (pumpOf out) \<le> frameCount (length dat) c"
    and "map snd (sentFrames (pumpOf out)) = map (wireFrame c dat) [0..<seqNo (pumpOf out)]"
    and "isDone out \<Longrightarrow> seqNo (pumpOf out) = frameCount (length dat) c"
proof -
  have c: "0 < c" using getSendChunkSize_bounds(1) [of maxMsg FILE_FRAME_HEADER_BYTES]
    by (simp add: c_def)
  let ?p0 = "initialPump c dcHigh (length (openChannels (chans ob)))"
  let ?run = "pumpOuter c dat os ?p0"
  have inv: "pumpInv c dat (pumpOf ?run)"
    by (rule pumpOuter_frames(1) [OF c pumpInv_initial])
  have fin: "\<And>q. ?run = Done q \<Longrightarrow> seqNo q = frameCount (length dat) c"
    by (rule pumpOuter_frames(2) [OF c pumpInv_initial])
  have shape: "out = ?run \<or> (\<exists>e. out = Threw e noPump)"
    using assms(3) by (simp add: out_def sendFileChunks_nonempty c_def)
  from shape show "seqNo (pumpOf out) \<le> frameCount (length dat) c"
    using inv by (auto simp add: pumpInv_def noPump_def)
  from shape show "map snd (sentFrames (pumpOf out)) = map (wireFrame c dat) [0..<seqNo (pumpOf out)]"
    using inv by (auto simp add: pumpInv_def noPump_def)
  assume "isDone out"
  then obtain q where q: "out = Done q" by (auto simp add: isDone_iff)
  with shape have "?run = Done q" by auto
  from fin [OF this] q show "seqNo (pumpOf out) = frameCount (length dat) c" by simp
qed

lemma sendFileChunks_calm:
  assumes "dat \<noteq> []"
  shows "isDone (sendFileChunks maxMsg dcHigh dat calmObs
           (replicate (Suc (frameCount (length dat) (getSendChunkSize maxMsg FILE_FRAME_HEADER_BYTES)))
              calmObs))"
proof -
  let ?c = "getSendChunkSize maxMsg FILE_FRAME_HEADER_BYTES"
  let ?p0 = "initialPump ?c dcHigh (length (openChannels (chans calmObs)))"
  have c: "0 < ?c" using getSendChunkSize_bounds(1) [of maxMsg FILE_FRAME_HEADER_BYTES] by simp
  have "frameCount (length dat) ?c - seqNo ?p0 \<le> frameCount (length dat) ?c" by simp
  from calm_outer [OF c pumpInv_initial this]
  obtain q where "pumpOuter ?c dat (replicate (Suc (frameCount (length dat) ?c)) calmObs) ?p0 = Done q" ..
  moreover have "ctrlOpen calmObs" "openChannels (chans calmObs) \<noteq> []" "\<not> sigAborted calmObs"
    by (simp_all add: calmObs_def openChannels_def)
  ultimately show ?thesis
    using assms by (simp only: sendFileChunks_nonempty simp_thms if_True if_False isDone.simps)
qed

lemma sendFileChunks_empty:
  assumes "isDone (sendFileChunks maxMsg dcHigh [] ob os)"
  shows "\<exists>dc0. firstOpen (chans ob) = Some dc0
       \<and> sentFrames (pumpOf (sendFileChunks maxMsg dcHigh [] ob os)) = [(dc0, setUint32 0 @ setUint32 0)]"
proof -
  let ?p0 = "initialPump (getSendChunkSize maxMsg FILE_FRAME_HEADER_BYTES) dcHigh
               (length (openChannels (chans ob)))"
  from assms obtain q where q: "sendFileChunks maxMsg dcHigh [] ob os = Done q"
    by (auto simp add: isDone_iff)
  then have "\<exists>dc0. firstOpen (chans ob) = Some dc0 \<and> sendEmpty dc0 os ?p0 = Done q"
    by (simp add: sendFileChunks_def Let_def split: if_splits option.splits)
  then obtain dc0 where dc0: "firstOpen (chans ob) = Some dc0" and run: "sendEmpty dc0 os ?p0 = Done q"
    by blast
  from sendEmpty_done [OF run] have "sentFrames q = [(dc0, setUint32 0 @ setUint32 0)]"
    by (simp add: initialPump_def Let_def)
  then show ?thesis using dc0 q by simp
qed

lemma sendFileChunks_empty_calm:
  "isDone (sendFileChunks maxMsg dcHigh [] calmObs [calmObs])"
  by (simp add: sendFileChunks_def Let_def firstOpen_calm)
     (simp add: calmObs_def openChannels_def)

lemma empty_frame_parse:
  "frameSeq (setUint32 0 @ setUint32 0) = 0" "framePayload (setUint32 0 @ setUint32 0) = []"
  using framePayload_frame [of "[]" 0]
  by (simp_all add: frameSeq_def getUint32_setUint32_0 [of 0 "setUint32 0", simplified])

text \<open>
  C5, as the code has it. Let \<open>c\<close> be the payload chunk size and \<open>S > 0\<close> the file size.
  In every run of \<open>sendFileChunks\<close> the frames sent so far are frames number
  \<open>0, 1, ..., k - 1\<close> for some \<open>k \<le> ceil(S / c)\<close>; when the call returns normally they are
  exactly the \<open>ceil(S / c)\<close> frames; and in an environment that lets every send through the
  call does return. Frame number \<open>i\<close> carries the bytes from offset \<open>i * c\<close> up to
  \<open>min ((i + 1) * c) S\<close>, and its 32-bit header field holds the sequence number
  \<open>i mod 2 ^ 32\<close>, which is \<open>i\<close> for the first \<open>2 ^ 32\<close> frames. (Sequence number and
  payload are read with the receiver's own header parse.) A file of size 0, when the call
  returns normally, has produced exactly one frame, the bare header \<open>(seq = 0, len = 0)\<close>, on
  the first channel that was open at the start.
\<close>

theorem sender_frames:
  "(dat \<noteq> [] \<longrightarrow>
      seqNo (pumpOf (sendFileChunks maxMsg dcHigh dat ob os))
        \<le> frameCount (length dat) (getSendChunkSize maxMsg FILE_FRAME_HEADER_BYTES)
    \<and> map snd (sentFrames (pumpOf (sendFileChunks maxMsg dcHigh dat ob os)))
        = map (wireFrame (getSendChunkSize maxMsg FILE_FRAME_HEADER_BYTES) dat)
            [0..<seqNo (pumpOf (sendFileChunks maxMsg dcHigh dat ob os))]
    \<and> (isDone (sendFileChunks maxMsg dcHigh dat ob os) \<longrightarrow>
         map snd (sentFrames (pumpOf (sendFileChunks maxMsg dcHigh dat ob os)))
           = map (wireFrame (getSendChunkSize maxMsg FILE_FRAME_HEADER_BYTES) dat)
               [0..<frameCount (length dat) (getSendChunkSize maxMsg FILE_FRAME_HEADER_BYTES)])
    \<and> isDone (sendFileChunks maxMsg dcHigh dat calmObs
         (replicate (Suc (frameCount (length dat) (getSendChunkSize maxMsg FILE_FRAME_HEADER_BYTES)))
            calmObs))
    \<and> frameSeq (wireFrame (getSendChunkSize maxMsg FILE_FRAME_HEADER_BYTES) dat i) = i mod 2 ^ 32
    \<and> (i < 2 ^ 32 \<longrightarrow>
         frameSeq (wireFrame (getSendChunkSize maxMsg FILE_FRAME_HEADER_BYTES) dat i) = i)
    \<and> framePayload (wireFrame (getSendChunkSize maxMsg FILE_FRAME_HEADER_BYTES) dat i)
        = slice dat (i * getSendChunkSize maxMsg FILE_FRAME_HEADER_BYTES)
            (min ((i + 1) * getSendChunkSize maxMsg FILE_FRAME_HEADER_BYTES) (length dat)))
   \<and> (dat = [] \<longrightarrow>
        (isDone (sendFileChunks maxMsg dcHigh dat ob os) \<longrightarrow>
           (\<exists>dc0. firstOpen (chans ob) = Some dc0
              \<and> sentFrames (pumpOf (sendFileChunks maxMsg dcHigh dat ob os))
                  = [(dc0, setUint32 0 @ setUint32 0)]))
      \<and> isDone (sendFileChunks maxMsg dcHigh dat calmObs [calmObs])
      \<and> frameSeq (setUint32 0 @ setUint32 0) = 0
      \<and> framePayload (setUint32 0 @ setUint32 0) = [])"
proof (intro conjI impI)
  let ?c = "getSendChunkSize maxMsg FILE_FRAME_HEADER_BYTES"
  let ?out = "sendFileChunks maxMsg dcHigh dat ob os"
  { assume ne: "dat \<noteq> []"
    show "seqNo (pumpOf ?out) \<le> frameCount (length dat) ?c"
      by (rule sendFileChunks_prefix(1) [OF ne])
    show pre: "map snd (sentFrames (pumpOf ?out)) = map (wireFrame ?c dat) [0..<seqNo (pumpOf ?out)]"
      by (rule sendFileChunks_prefix(2) [OF ne])
    show "isDone (sendFileChunks maxMsg dcHigh dat calmObs
         (replicate (Suc (frameCount (length dat) ?c)) calmObs))"
      by (rule sendFileChunks_calm [OF ne])
    show "frameSeq (wireFrame ?c dat i) = i mod 2 ^ 32" by (rule frameSeq_wireFrame)
    show "framePayload (wireFrame ?c dat i) = slice dat (i * ?c) (min ((i + 1) * ?c) (length dat))"
      using framePayload_wireFrame [OF getSendChunkSize_bounds(2)] by (simp add: chunkPayload_def)
    { assume "isDone ?out"
      from sendFileChunks_prefix(3) [OF ne this] pre
      show "map snd (sentFrames (pumpOf ?out)) = map (wireFrame ?c dat) [0..<frameCount (length dat) ?c]"
        by simp }
    { assume "i < 2 ^ 32"
      then show "frameSeq (wireFrame ?c dat i) = i" by (simp add: frameSeq_wireFrame) } }
  { assume e: "dat = []"
    show "isDone (sendFileChunks maxMsg dcHigh dat calmObs [calmObs])"
      unfolding e by (rule sendFileChunks_empty_calm)
    show "frameSeq (setUint32 0 @ setUint32 0) = 0" by (rule empty_frame_parse(1))
    show "framePayload (setUint32 0 @ setUint32 0) = []" by (rule empty_frame_parse(2))
    { assume "isDone ?out"
      then show "\<exists>dc0. firstOpen (chans ob) = Some dc0
              \<and> sentFrames (pumpOf ?out) = [(dc0, setUint32 0 @ setUint32 0)]"
        unfolding e by (rule sendFileChunks_empty) } }
qed

lemma calm_run_frames:
  assumes "dat \<noteq> []" and "i < frameCount (length dat) (getSendChunkSize maxMsg FILE_FRAME_HEADER_BYTES)"
  shows "isDone (sendFileChunks maxMsg dcHigh dat calmObs
           (replicate (Suc (frameCount (length dat) (getSendChunkSize maxMsg FILE_FRAME_HEADER_BYTES)))
              calmObs))
       \<and> length (sentFrames (pumpOf (sendFileChunks maxMsg dcHigh dat calmObs
           (replicate (Suc (frameCount (length dat) (getSendChunkSize maxMsg FILE_FRAME_HEADER_BYTES)))
              calmObs))))
          = frameCount (length dat) (getSendChunkSize maxMsg FILE_FRAME_HEADER_BYTES)
       \<and> frameSeq (snd (sentFrames (pumpOf (sendFileChunks maxMsg dcHigh dat calmObs
           (replicate (Suc (frameCount (length dat) (getSendChunkSize maxMsg FILE_FRAME_HEADER_BYTES)))
              calmObs))) ! i))
          = i mod 2 ^ 32"
proof -
  let ?c = "getSendChunkSize maxMsg FILE_FRAME_HEADER_BYTES"
  let ?n = "frameCount (length dat) ?c"
  let ?out = "sendFileChunks maxMsg dcHigh dat calmObs (replicate (Suc ?n) calmObs)"
  have d: "isDone ?out" by (rule sendFileChunks_calm [OF assms(1)])
  have n: "seqNo (pumpOf ?out) = ?n" by (rule sendFileChunks_prefix(3) [OF assms(1) d])
  have m: "map snd (sentFrames (pumpOf ?out)) = map (wireFrame ?c dat) [0..<?n]"
    using sendFileChunks_prefix(2) [OF assms(1), of maxMsg dcHigh calmObs "replicate (Suc ?n) calmObs"]
    by (simp only: n)
  from m have len: "length (sentFrames (pumpOf ?out)) = ?n"
    by (metis length_map length_upt diff_zero)
  have "snd (sentFrames (pumpOf ?out) ! i) = map snd (sentFrames (pumpOf ?out)) ! i"
    using assms(2) len by (simp only: nth_map)
  also have "\<dots> = wireFrame ?c dat i"
    using assms(2) by (simp only: m) (simp only: nth_map length_upt diff_zero nth_upt add_0)
  finally have "frameSeq (snd (sentFrames (pumpOf ?out) ! i)) = i mod 2 ^ 32"
    by (simp only: frameSeq_wireFrame)
  with d len show ?thesis by blast
qed

text \<open>
  C5, as the claim states it, fails once a file has more than \<open>2 ^ 32\<close> frames, because
  the header stores the sequence number in 32 bits: with a maximum message size of 9 (one
  payload byte per frame) a file of \<open>2 ^ 32 + 1\<close> bytes is sent in \<open>2 ^ 32 + 1\<close> frames,
  and the last one carries sequence number 0 where \<open>2 ^ 32\<close> was claimed.
\<close>

theorem sender_seq_wraps_counterexample:
  "isDone (sendFileChunks 9 (16 * 1024 * 1024) (replicate (2 ^ 32 + 1) 0) calmObs
             (replicate (Suc (2 ^ 32 + 1)) calmObs))
   \<and> length (sentFrames (pumpOf (sendFileChunks 9 (16 * 1024 * 1024) (replicate (2 ^ 32 + 1) 0) calmObs
             (replicate (Suc (2 ^ 32 + 1)) calmObs)))) = 2 ^ 32 + 1
   \<and> frameSeq (snd (sentFrames (pumpOf (sendFileChunks 9 (16 * 1024 * 1024)
             (replicate (2 ^ 32 + 1) 0) calmObs (replicate (Suc (2 ^ 32 + 1)) calmObs))) ! (2 ^ 32)))
       = 0"
proof -
  let ?dat = "replicate (2 ^ 32 + 1) (0 :: byte)"
  have c: "getSendChunkSize 9 FILE_FRAME_HEADER_BYTES = 1"
    by (simp add: getSendChunkSize_def FILE_FRAME_HEADER_BYTES_def FILE_CHUNK_SIZE_def)
  have len: "length ?dat = 2 ^ 32 + 1" by (simp only: length_replicate)
  have fc: "frameCount (2 ^ 32 + 1) 1 = 2 ^ 32 + 1" by (simp add: frameCount_def)
  have ne: "?dat \<noteq> []" by (simp only: replicate_empty)
  have lt: "(2 ^ 32 :: nat) < frameCount (length ?dat) (getSendChunkSize 9 FILE_FRAME_HEADER_BYTES)"
    unfolding c len fc by simp
  have z: "(2 ^ 32 :: nat) mod 2 ^ 32 = 0" by simp
  from calm_run_frames [OF ne lt, of "16 * 1024 * 1024"]
  show ?thesis unfolding c len fc z .
qed

lemma high_invariant:
  assumes "minHighWaterMark c \<le> highWaterMark p0"
  shows "minHighWaterMark c \<le> highWaterMark (pumpOf (pumpOuter c dat os p0))"
proof -
  have "minHighWaterMark c \<le> highWaterMark (pumpOf (pumpOuter c dat os p0))
      \<and> (\<forall>q. pumpOuter c dat os p0 = Done q \<longrightarrow> \<not> offset q < length dat)"
    by (rule pump_invariant(1) [where P = "\<lambda>c dat p. minHighWaterMark c \<le> highWaterMark p"])
       (simp_all add: assms queueFullAdjust_def Let_def)
  then show ?thesis by simp
qed

text \<open>
  C6, as the code has it. The catch block for a full send queue sets the high watermark to
  \<open>max minHigh (high div 2)\<close> with \<open>minHigh = max (1 MiB) (4 * chunkSize)\<close> and the low
  watermark to \<open>max (512 KiB) (high div 4)\<close>, and the pump goes on with these values. The new
  high watermark is at least 1 MiB; it never exceeds the previous one (the high watermark
  starts at or above \<open>minHigh\<close> and stays there throughout the chunk loop); and it is at most
  \<open>previous / 2 + chunkSize\<close> as long as the previous one is at least \<open>2 * minHigh\<close>.
\<close>

theorem queue_full_watermark:
  "highWaterMark (queueFullAdjust c p) = max (minHighWaterMark c) (highWaterMark p div 2)
   \<and> lowWaterMark (queueFullAdjust c p) = max (512 * 1024) (highWaterMark (queueFullAdjust c p) div 4)
   \<and> 1024 * 1024 \<le> highWaterMark (queueFullAdjust c p)
   \<and> (minHighWaterMark c \<le> highWaterMark p \<longrightarrow>
        highWaterMark (queueFullAdjust c p) \<le> highWaterMark p)
   \<and> (2 * minHighWaterMark c \<le> highWaterMark p \<longrightarrow>
        highWaterMark (queueFullAdjust c p) \<le> highWaterMark p div 2 + c)
   \<and> (offset p < length dat \<and> inBudget ob \<and> \<not> sigAborted ob \<and> ctrlOpen ob
        \<and> pickChannel (highWaterMark p) (rrIndex p) (chans ob) = Some (idx, rr)
        \<and> sendResult ob = SendQueueFull \<and> \<not> waitAborted ob \<longrightarrow>
        pumpInner c dat (ob # os) p = pumpOuter c dat os (queueFullAdjust c (p\<lparr>rrIndex := rr\<rparr>)))
   \<and> minHighWaterMark c \<le> highWaterMark (initialPump c dcHigh n)
   \<and> (minHighWaterMark c \<le> highWaterMark p \<longrightarrow>
        minHighWaterMark c \<le> highWaterMark (pumpOf (pumpOuter c dat os p)))"
proof (intro conjI impI)
  show "highWaterMark (queueFullAdjust c p) = max (minHighWaterMark c) (highWaterMark p div 2)"
    by (simp add: queueFullAdjust_def Let_def)
  show "lowWaterMark (queueFullAdjust c p) = max (512 * 1024) (highWaterMark (queueFullAdjust c p) div 4)"
    by (simp add: queueFullAdjust_def Let_def)
  show "1024 * 1024 \<le> highWaterMark (queueFullAdjust c p)"
    by (simp add: queueFullAdjust_def Let_def minHighWaterMark_def)
  show "minHighWaterMark c \<le> highWaterMark (initialPump c dcHigh n)"
    by (simp add: initialPump_def Let_def)
next
  assume "minHighWaterMark c \<le> highWaterMark p"
  then show "highWaterMark (queueFullAdjust c p) \<le> highWaterMark p"
    by (simp add: queueFullAdjust_def Let_def)
next
  assume "2 * minHighWaterMark c \<le> highWaterMark p"
  then show "highWaterMark (queueFullAdjust c p) \<le> highWaterMark p div 2 + c"
    by (simp add: queueFullAdjust_def Let_def)
next
  assume "offset p < length dat \<and> inBudget ob \<and> \<not> sigAborted ob \<and> ctrlOpen ob
        \<and> pickChannel (highWaterMark p) (rrIndex p) (chans ob) = Some (idx, rr)
        \<and> sendResult ob = SendQueueFull \<and> \<not> waitAborted ob"
  then show "pumpInner c dat (ob # os) p = pumpOuter c dat os (queueFullAdjust c (p\<lparr>rrIndex := rr\<rparr>))"
    by (simp add: Let_def)
next
  assume "minHighWaterMark c \<le> highWaterMark p"
  then show "minHighWaterMark c \<le> highWaterMark (pumpOf (pumpOuter c dat os p))"
    by (rule high_invariant)
qed

lemmas tx_eval = sendFileChunks_def getSendChunkSize_def FILE_FRAME_HEADER_BYTES_def
  FILE_CHUNK_SIZE_def initialPump_def minHighWaterMark_def dcHighWaterMark_def calmObs_def
  fullObs_def openChannels_def allFull_def pickChannel_def queueFullAdjust_def firstOpen_def
  mkFrame_def setUint32_def Let_def

text \<open>
  C6, as the claim states it, fails at the floor: with the default chunk size (262136
  payload bytes) and the default 16 MiB watermark on one channel, four queue-full errors
  bring the high watermark to 1 MiB, and the fifth leaves it at 1 MiB, above
  \<open>1 MiB / 2 + 262136\<close>.
\<close>

theorem queue_full_floor_counterexample:
  "highWaterMark (pumpOf (sendFileChunks 0 (dcHighWaterMark 0) [0] calmObs
       [calmObs, fullObs, calmObs, fullObs, calmObs, fullObs, calmObs, fullObs])) = 1048576
   \<and> highWaterMark (pumpOf (sendFileChunks 0 (dcHighWaterMark 0) [0] calmObs
       [calmObs, fullObs, calmObs, fullObs, calmObs, fullObs, calmObs, fullObs, calmObs, fullObs]))
       = 1048576
   \<and> getSendChunkSize 0 FILE_FRAME_HEADER_BYTES = 262136
   \<and> \<not> (1048576 :: nat) \<le> 1048576 div 2 + 262136"
  by (simp add: tx_eval)

theorem queue_full_watermark_witness:
  "minHighWaterMark 262136 \<le> highWaterMark (initialPump 262136 16777216 1)
   \<and> 2 * minHighWaterMark 262136 \<le> highWaterMark (initialPump 262136 16777216 1)
   \<and> highWaterMark (queueFullAdjust 262136 (initialPump 262136 16777216 1)) = 8388608
   \<and> highWaterMark (queueFullAdjust 262136 (initialPump 262136 16777216 1))
        \<le> highWaterMark (initialPump 262136 16777216 1) div 2 + 262136
   \<and> highWaterMark (queueFullAdjust 262136 (initialPump 262136 16777216 1))
        \<le> highWaterMark (initialPump 262136 16777216 1)
   \<and> pickChannel (highWaterMark (initialPump 262136 16777216 1))
         (rrIndex (initialPump 262136 16777216 1)) (chans fullObs) = Some (0, 0)
   \<and> pumpInner 262136 [7] [fullObs] (initialPump 262136 16777216 1)
       = pumpOuter 262136 [7] [] (queueFullAdjust 262136 ((initialPump 262136 16777216 1)\<lparr>rrIndex := 0\<rparr>))
   \<and> minHighWaterMark 262136
        \<le> highWaterMark (pumpOf (pumpOuter 262136 [7] [calmObs, fullObs] (initialPump 262136 16777216 1)))"
proof -
  let ?p = "initialPump 262136 16777216 1"
  have h1: "minHighWaterMark 262136 \<le> highWaterMark ?p" "2 * minHighWaterMark 262136 \<le> highWaterMark ?p"
    by (simp_all add: tx_eval)
  have h2: "offset ?p < length [7 :: byte] \<and> inBudget fullObs \<and> \<not> sigAborted fullObs \<and> ctrlOpen fullObs
        \<and> pickChannel (highWaterMark ?p) (rrIndex ?p) (chans fullObs) = Some (0, 0)
        \<and> sendResult fullObs = SendQueueFull \<and> \<not> waitAborted fullObs"
    by (simp add: tx_eval)
  note T = queue_full_watermark [where c = 262136 and p = ?p and dat = "[7]" and ob = fullObs
      and idx = 0 and rr = 0 and os = "[]" and dcHigh = 16777216 and n = 1]
  note T' = queue_full_watermark [where c = 262136 and p = ?p and dat = "[7]" and os = "[calmObs, fullObs]"]
  have v: "max (minHighWaterMark 262136) (highWaterMark ?p div 2) = 8388608"
    by (simp add: tx_eval)
  have c1: "highWaterMark (queueFullAdjust 262136 ?p) = 8388608" using T v by simp
  have c2: "highWaterMark (queueFullAdjust 262136 ?p) \<le> highWaterMark ?p div 2 + 262136"
    using T h1 by blast
  have c3: "highWaterMark (queueFullAdjust 262136 ?p) \<le> highWaterMark ?p" using T h1 by blast
  have c4: "pumpInner 262136 [7] [fullObs] ?p
       = pumpOuter 262136 [7] [] (queueFullAdjust 262136 (?p\<lparr>rrIndex := 0\<rparr>))"
    using T h2 by blast
  have c5: "minHighWaterMark 262136
        \<le> highWaterMark (pumpOf (pumpOuter 262136 [7] [calmObs, fullObs] ?p))"
    using T' h1 by blast
  show ?thesis using h1 h2 c1 c2 c3 c4 c5 by blast
qed

theorem sender_frames_witness:
  "getSendChunkSize 10 FILE_FRAME_HEADER_BYTES = 2
   \<and> frameCount (length [1, 2, 3, 4, 5 :: byte]) 2 = 3
   \<and> isDone (sendFileChunks 10 16777216 [1, 2, 3, 4, 5] calmObs [calmObs, calmObs, calmObs, calmObs])
   \<and> map snd (sentFrames (pumpOf
        (sendFileChunks 10 16777216 [1, 2, 3, 4, 5] calmObs [calmObs, calmObs, calmObs, calmObs])))
       = map (wireFrame (getSendChunkSize 10 FILE_FRAME_HEADER_BYTES) [1, 2, 3, 4, 5])
           [0..<frameCount (length [1, 2, 3, 4, 5 :: byte]) (getSendChunkSize 10 FILE_FRAME_HEADER_BYTES)]
   \<and> map snd (sentFrames (pumpOf
        (sendFileChunks 10 16777216 [1, 2, 3, 4, 5] calmObs [calmObs, calmObs, calmObs, calmObs])))
       = [[0, 0, 0, 0, 0, 0, 0, 2, 1, 2], [0, 0, 0, 1, 0, 0, 0, 2, 3, 4], [0, 0, 0, 2, 0, 0, 0, 1, 5]]
   \<and> frameSeq (wireFrame (getSendChunkSize 10 FILE_FRAME_HEADER_BYTES) [1, 2, 3, 4, 5] 2) = 2
   \<and> framePayload (wireFrame (getSendChunkSize 10 FILE_FRAME_HEADER_BYTES) [1, 2, 3, 4, 5] 2) = [5]
   \<and> isDone (sendFileChunks 10 16777216 [] calmObs [calmObs])
   \<and> (\<exists>dc0. firstOpen (chans calmObs) = Some dc0
              \<and> sentFrames (pumpOf (sendFileChunks 10 16777216 [] calmObs [calmObs]))
                  = [(dc0, setUint32 0 @ setUint32 0)])
   \<and> sentFrames (pumpOf (sendFileChunks 10 16777216 [] calmObs [calmObs]))
       = [(0, [0, 0, 0, 0, 0, 0, 0, 0])]"
proof -
  let ?dat = "[1, 2, 3, 4, 5 :: byte]"
  let ?os = "[calmObs, calmObs, calmObs, calmObs]"
  let ?out = "sendFileChunks 10 16777216 ?dat calmObs ?os"
  let ?oute = "sendFileChunks 10 16777216 [] calmObs [calmObs]"
  have h0: "getSendChunkSize 10 FILE_FRAME_HEADER_BYTES = 2" "frameCount (length ?dat) 2 = 3"
    by (simp_all add: tx_eval frameCount_def)
  have h1: "?dat \<noteq> []" "isDone ?out" by (simp_all add: tx_eval)
  have h2: "isDone ?oute" by (simp add: tx_eval)
  have h3: "(2 :: nat) < 2 ^ 32" by simp
  have ev: "map snd (sentFrames (pumpOf ?out))
       = [[0, 0, 0, 0, 0, 0, 0, 2, 1, 2], [0, 0, 0, 1, 0, 0, 0, 2, 3, 4], [0, 0, 0, 2, 0, 0, 0, 1, 5]]"
    by (simp add: tx_eval)
  have eve: "sentFrames (pumpOf ?oute) = [(0, [0, 0, 0, 0, 0, 0, 0, 0])]"
    by (simp add: tx_eval)
  note T = sender_frames [where dat = ?dat and maxMsg = 10 and dcHigh = 16777216 and ob = calmObs
      and os = ?os and i = 2]
  note E = sender_frames [where dat = "[]" and maxMsg = 10 and dcHigh = 16777216 and ob = calmObs
      and os = "[calmObs]"]
  have c1: "map snd (sentFrames (pumpOf ?out))
       = map (wireFrame (getSendChunkSize 10 FILE_FRAME_HEADER_BYTES) ?dat)
           [0..<frameCount (length ?dat) (getSendChunkSize 10 FILE_FRAME_HEADER_BYTES)]"
    using T h1 by blast
  have c2: "frameSeq (wireFrame (getSendChunkSize 10 FILE_FRAME_HEADER_BYTES) ?dat 2) = 2"
    using T h1 h3 by blast
  have "framePayload (wireFrame (getSendChunkSize 10 FILE_FRAME_HEADER_BYTES) ?dat 2)
      = slice ?dat (2 * getSendChunkSize 10 FILE_FRAME_HEADER_BYTES)
            (min ((2 + 1) * getSendChunkSize 10 FILE_FRAME_HEADER_BYTES) (length ?dat))"
    using T h1 by blast
  then have c3: "framePayload (wireFrame (getSendChunkSize 10 FILE_FRAME_HEADER_BYTES) ?dat 2) = [5]"
    by (simp add: h0 slice_def)
  have c4: "\<exists>dc0. firstOpen (chans calmObs) = Some dc0
              \<and> sentFrames (pumpOf ?oute) = [(dc0, setUint32 0 @ setUint32 0)]"
    using E h2 by blast
  show ?thesis using h0 h1 h2 ev eve c1 c2 c3 c4 by blast
qed

text \<open>
  C7, as the code has it. \<open>cancelOutgoingFile\<close> hands a \<open>file-cancel\<close> to the control
  channel iff the id is not blank, the transfer is active with \<open>metaSent\<close> set, the caller
  asked to notify the peer, and the control channel is open; in every other case it sends
  nothing. \<open>metaSent\<close> is set by \<open>doSendFile\<close> exactly where it passes \<open>file-meta\<close> to
  \<open>peer.send\<close>, and is false from the registration of the transfer until then.
\<close>

theorem cancel_notifies_peer:
  "txSent (cancelOutgoingFile s fid notifyPeer reason) =
     txSent s @
       (if trim fid \<noteq> [] \<and> notifyPeer \<and> txOpen s
           \<and> (\<exists>st. outgoingTransfers s (trim fid) = Some st \<and> metaSent st)
        then [FileCancel (trim fid) reason] else [])
   \<and> (outgoingTransfers s fid = Some st \<and> \<not> ctlAborted st \<longrightarrow>
        snd (doSendFile_meta s fid nm sz sid sc) = None
      \<and> outgoingTransfers (fst (doSendFile_meta s fid nm sz sid sc)) fid = Some (st\<lparr>metaSent := True\<rparr>)
      \<and> txSent (fst (doSendFile_meta s fid nm sz sid sc)) =
          txSent s @ (if txOpen s then [FileMeta fid sid sc nm sz] else []))
   \<and> (stagedFiles s fid \<noteq> None \<and> txOpen s \<and> fid \<notin> outgoingCancelledIds s \<longrightarrow>
        doSendFile_start s fid =
          (s\<lparr>outgoingTransfers :=
               (outgoingTransfers s)(fid \<mapsto> \<lparr>ctlAborted = False, metaSent = False\<rparr>)\<rparr>, None))"
proof (intro conjI impI)
  show "txSent (cancelOutgoingFile s fid notifyPeer reason) =
     txSent s @
       (if trim fid \<noteq> [] \<and> notifyPeer \<and> txOpen s
           \<and> (\<exists>st. outgoingTransfers s (trim fid) = Some st \<and> metaSent st)
        then [FileCancel (trim fid) reason] else [])"
  proof (cases "outgoingTransfers s (trim fid)")
    case None
    then show ?thesis
      by (simp add: cancelOutgoingFile_def Let_def cancelQueuedOutgoingJob_def)
  next
    case (Some st)
    then show ?thesis
      by (simp add: cancelOutgoingFile_def Let_def peerSend_def)
  qed
next
  assume a: "outgoingTransfers s fid = Some st \<and> \<not> ctlAborted st"
  then show "snd (doSendFile_meta s fid nm sz sid sc) = None"
    by (simp add: doSendFile_meta_def Let_def)
  from a show "outgoingTransfers (fst (doSendFile_meta s fid nm sz sid sc)) fid
      = Some (st\<lparr>metaSent := True\<rparr>)"
    by (simp add: doSendFile_meta_def Let_def)
  from a show "txSent (fst (doSendFile_meta s fid nm sz sid sc)) =
          txSent s @ (if txOpen s then [FileMeta fid sid sc nm sz] else [])"
    by (simp add: doSendFile_meta_def Let_def peerSend_def)
next
  assume "stagedFiles s fid \<noteq> None \<and> txOpen s \<and> fid \<notin> outgoingCancelledIds s"
  then show "doSendFile_start s fid =
          (s\<lparr>outgoingTransfers :=
               (outgoingTransfers s)(fid \<mapsto> \<lparr>ctlAborted = False, metaSent = False\<rparr>)\<rparr>, None)"
    by (auto simp add: doSendFile_start_def)
qed

lemmas cancel_eval = cancelOutgoingFile_def cancelQueuedOutgoingJob_def doSendFile_start_def
  doSendFile_meta_def peerSend_def exampleSender_def onFileCancel_def cancelSend_def
  trim_def isJsSpace_def Let_def

text \<open>
  C7, as the claim states it, fails in the direction "meta sent implies cancel sent": after
  \<open>file-meta\<close> went out, a cancel triggered by the peer's own \<open>file-cancel\<close> (which calls
  \<open>cancelOutgoingFile\<close> with \<open>notifyPeer: false\<close>) aborts the transfer and sends nothing,
  and so does the user's cancel once the control channel is no longer open.
\<close>

theorem cancel_without_notice_counterexample:
  "txSent (fst (doSendFile_meta (fst (doSendFile_start exampleSender ''f'')) ''f'' ''a.bin'' 5 ''tx'' 1))
     = [FileMeta ''f'' ''tx'' 1 ''a.bin'' 5]
   \<and> txSent (onFileCancel
        (fst (doSendFile_meta (fst (doSendFile_start exampleSender ''f'')) ''f'' ''a.bin'' 5 ''tx'' 1))
        ''f'' None)
     = [FileMeta ''f'' ''tx'' 1 ''a.bin'' 5]
   \<and> map_option ctlAborted (outgoingTransfers (onFileCancel
        (fst (doSendFile_meta (fst (doSendFile_start exampleSender ''f'')) ''f'' ''a.bin'' 5 ''tx'' 1))
        ''f'' None) ''f'') = Some True
   \<and> txSent (cancelSend
        ((fst (doSendFile_meta (fst (doSendFile_start exampleSender ''f'')) ''f'' ''a.bin'' 5 ''tx'' 1))
           \<lparr>txOpen := False\<rparr>) ''f'')
     = [FileMeta ''f'' ''tx'' 1 ''a.bin'' 5]"
  by (simp add: cancel_eval)

theorem cancel_notifies_peer_witness:
  "outgoingTransfers (fst (doSendFile_start exampleSender ''f'')) ''f''
       = Some \<lparr>ctlAborted = False, metaSent = False\<rparr>
   \<and> txSent (fst (doSendFile_meta (fst (doSendFile_start exampleSender ''f'')) ''f'' ''a.bin'' 5 ''tx'' 1))
       = [FileMeta ''f'' ''tx'' 1 ''a.bin'' 5]
   \<and> txSent (cancelSend
        (fst (doSendFile_meta (fst (doSendFile_start exampleSender ''f'')) ''f'' ''a.bin'' 5 ''tx'' 1)) ''f'')
       = [FileMeta ''f'' ''tx'' 1 ''a.bin'' 5, FileCancel ''f'' ''Canceled'']
   \<and> txSent (cancelSend (fst (doSendFile_start exampleSender ''f'')) ''f'') = []"
proof -
  let ?s1 = "fst (doSendFile_start exampleSender ''f'')"
  let ?s2 = "fst (doSendFile_meta ?s1 ''f'' ''a.bin'' 5 ''tx'' 1)"
  have h0: "stagedFiles exampleSender ''f'' \<noteq> None \<and> txOpen exampleSender
      \<and> ''f'' \<notin> outgoingCancelledIds exampleSender"
    by (simp add: exampleSender_def)
  note T0 = cancel_notifies_peer [where s = exampleSender and fid = "''f''"]
  have c0: "doSendFile_start exampleSender ''f'' =
      (exampleSender\<lparr>outgoingTransfers :=
         (outgoingTransfers exampleSender)(''f'' \<mapsto> \<lparr>ctlAborted = False, metaSent = False\<rparr>)\<rparr>, None)"
    using T0 h0 by blast
  then have h1: "outgoingTransfers ?s1 ''f'' = Some \<lparr>ctlAborted = False, metaSent = False\<rparr>
      \<and> \<not> ctlAborted \<lparr>ctlAborted = False, metaSent = False\<rparr>"
    by simp
  note T1 = cancel_notifies_peer [where s = ?s1 and fid = "''f''" and nm = "''a.bin''" and sz = 5
      and sid = "''tx''" and sc = 1 and st = "\<lparr>ctlAborted = False, metaSent = False\<rparr>"
      and notifyPeer = True and reason = "''Canceled''"]
  have open1: "txOpen ?s1" "txSent ?s1 = []" by (simp_all add: c0) (simp_all add: exampleSender_def)
  have c1: "txSent ?s2 = [FileMeta ''f'' ''tx'' 1 ''a.bin'' 5]"
    and m1: "outgoingTransfers ?s2 ''f'' = Some \<lparr>ctlAborted = False, metaSent = True\<rparr>"
    using T1 h1 open1 by auto
  have open2: "txOpen ?s2" by (simp add: cancel_eval)
  note T2 = cancel_notifies_peer [where s = ?s2 and fid = "''f''" and notifyPeer = True
      and reason = "''Canceled''"]
  have tr: "trim ''f'' = ''f''" by (simp add: trim_def isJsSpace_def)
  have c2: "txSent (cancelSend ?s2 ''f'') = [FileMeta ''f'' ''tx'' 1 ''a.bin'' 5, FileCancel ''f'' ''Canceled'']"
    using T2 open2 c1 m1 by (simp add: cancelSend_def tr)
  have c3: "txSent (cancelSend ?s1 ''f'') = []"
    using T1 open1 h1 by (simp add: cancelSend_def tr)
  show ?thesis using h1 c1 c2 c3 by blast
qed

section \<open>Properties of host-candidate rewriting\<close>

lemma dropWhile_take_prefix:
  assumes "dropWhile P a = a"
  shows "dropWhile P (take n a) = take n a"
proof (cases "take n a")
  case Nil
  show ?thesis unfolding Nil by simp
next
  case (Cons x xs)
  then have "a \<noteq> []" by auto
  then obtain y ys where a: "a = y # ys" by (cases a) auto
  with Cons have "x = y" by (cases n) auto
  moreover have "\<not> P y" using assms a by (metis dropWhile.simps(2) dropWhile_eq_Cons_conv)
  ultimately show ?thesis using Cons by simp
qed

lemma trim_idem: "trim (trim s) = trim s"
proof -
  let ?a = "dropWhile isJsSpace s"
  let ?b = "dropWhile isJsSpace (rev ?a)"
  obtain k where k: "?b = drop k (rev ?a)" by (metis dropWhile_eq_drop)
  have "rev ?b = take (length ?a - k) ?a" by (simp add: k rev_drop)
  moreover have "dropWhile isJsSpace ?a = ?a" by simp
  ultimately have "dropWhile isJsSpace (rev ?b) = rev ?b"
    by (metis dropWhile_take_prefix)
  then show ?thesis by (simp add: trim_def)
qed

lemma trim_Nil: "trim [] = []"
  by (simp add: trim_def)

lemma isValidIpv4_trim: "isValidIpv4 (trim v) = isValidIpv4 v"
  by (simp add: isValidIpv4_def trim_idem)

text \<open>
  C8. Rewriting host candidates with an override that is absent, or that
  \<open>isValidIpv4\<close> rejects (after trimming: not four dot-separated groups of one to three
  decimal digits with values 0 to 255), returns the description unchanged.
\<close>

theorem rewrite_identity_without_valid_override:
  "(ov = None \<or> (\<exists>v. ov = Some v \<and> \<not> isValidIpv4 v))
     \<longrightarrow> rewriteMdnsHostCandidatesInSdp sdp ov = sdp"
proof
  assume "ov = None \<or> (\<exists>v. ov = Some v \<and> \<not> isValidIpv4 v)"
  then have "normalizeLanIpOverride ov = []"
  proof
    assume "ov = None"
    then show ?thesis by (simp add: normalizeLanIpOverride_def Let_def trim_Nil)
  next
    assume "\<exists>v. ov = Some v \<and> \<not> isValidIpv4 v"
    then obtain v where "ov = Some v" and "\<not> isValidIpv4 (trim v)"
      by (auto simp add: isValidIpv4_trim)
    then show ?thesis by (simp add: normalizeLanIpOverride_def Let_def)
  qed
  then show "rewriteMdnsHostCandidatesInSdp sdp ov = sdp"
    by (simp add: rewriteMdnsHostCandidatesInSdp_def Let_def)
qed

lemmas sdp_eval = rewriteMdnsHostCandidatesInSdp_def normalizeLanIpOverride_def isValidIpv4_def
  rewriteLine_def strIncludes_def startsWith_def endsWith_def isDigit_def decimalValue_def trim_def
  isJsSpace_def exampleSdp_def Let_def

theorem rewrite_identity_without_valid_override_witness:
  "\<not> isValidIpv4 ''192.168.1.256''
   \<and> rewriteMdnsHostCandidatesInSdp exampleSdp (Some ''192.168.1.256'') = exampleSdp
   \<and> rewriteMdnsHostCandidatesInSdp exampleSdp None = exampleSdp
   \<and> isValidIpv4 '' 192.168.1.7''
   \<and> rewriteMdnsHostCandidatesInSdp exampleSdp (Some '' 192.168.1.7'') \<noteq> exampleSdp"
proof -
  have h: "\<not> isValidIpv4 ''192.168.1.256''" "isValidIpv4 '' 192.168.1.7''"
    by (simp_all add: sdp_eval)
  have c1: "rewriteMdnsHostCandidatesInSdp exampleSdp (Some ''192.168.1.256'') = exampleSdp"
    using rewrite_identity_without_valid_override [of "Some ''192.168.1.256''" exampleSdp] h(1)
    by blast
  have c2: "rewriteMdnsHostCandidatesInSdp exampleSdp None = exampleSdp"
    using rewrite_identity_without_valid_override [of None exampleSdp] by blast
  have c3: "rewriteMdnsHostCandidatesInSdp exampleSdp (Some '' 192.168.1.7'') \<noteq> exampleSdp"
    by (simp add: sdp_eval)
  show ?thesis using h c1 c2 c3 by blast
qed

section \<open>Properties of the signal codec\<close>

text \<open>
  Base32: both loops move bits through the accumulator unchanged, so decoding an
  encoded byte string gives the bytes back, whatever their number.
\<close>

lemma length_bitsOf: "length (bitsOf n w) = n"
  by (induction n) simp_all

lemma bitsOf_cong:
  "(\<And>i. i < n \<Longrightarrow> bit a i = bit b i) \<Longrightarrow> bitsOf n a = bitsOf n b"
  by (induction n) simp_all

lemma bitsOf_add: "bitsOf (k + m) w = bitsOf m (drop_bit k w) @ bitsOf k w"
  by (induction m) (simp_all add: bit_drop_bit_eq add.commute)

lemma bitsOf_nth: "i < n \<Longrightarrow> bitsOf n w ! (n - Suc i) = bit w i"
proof (induction n)
  case 0
  then show ?case by simp
next
  case (Suc n)
  show ?case
  proof (cases "i = n")
    case True
    then show ?thesis by simp
  next
    case False
    with Suc.prems have lt: "i < n" by simp
    then have "Suc n - Suc i = Suc (n - Suc i)" by simp
    then show ?thesis using Suc.IH [OF lt] by simp
  qed
qed

lemma bitsOf_inj:
  fixes a b :: byte
  assumes "bitsOf 8 a = bitsOf 8 b"
  shows "a = b"
proof (rule bit_word_eqI)
  fix i assume "i < LENGTH(8)"
  then have "i < 8" by simp
  then have "bit a i = bitsOf 8 a ! (8 - Suc i)" "bit b i = bitsOf 8 b ! (8 - Suc i)"
    by (simp_all only: bitsOf_nth)
  then show "bit a i = bit b i"
    using assms by simp
qed

lemma mask5: "(31 :: 32 word) = mask 5"
  by (simp add: mask_eq_exp_minus_1)

lemma mask8: "(255 :: 32 word) = mask 8"
  by (simp add: mask_eq_exp_minus_1)

lemma bit_sdrop_low:
  assumes "i + k < 32"
  shows "bit (signed_drop_bit k (w :: 32 word)) i = bit w (k + i)"
proof -
  have "\<not> LENGTH(32) - k \<le> i" using assms by simp
  then show ?thesis by (simp only: bit_signed_drop_bit_iff if_False simp_thms add.commute)
qed

lemma bit_byte_high: "8 \<le> i \<Longrightarrow> \<not> bit (b :: byte) i"
  using bit_imp_le_length [of b i] by auto

lemma bit_small_high:
  assumes "v < 32" and "5 \<le> i"
  shows "\<not> bit (of_nat v :: 32 word) i"
proof -
  have "(2 :: nat) ^ 5 \<le> 2 ^ i" using assms(2) by (intro power_increasing) simp_all
  then have "v < 2 ^ i" using assms(1) by simp
  then have "v div 2 ^ i = 0" by simp
  then have "\<not> bit v i" by (simp add: bit_iff_odd)
  then show ?thesis by (simp add: bit_of_nat_iff)
qed

lemma emit5:
  assumes "k + 5 \<le> 32"
  shows "bitsOf 5 (signed_drop_bit k (w :: 32 word) AND 31) = bitsOf 5 (drop_bit k w)"
proof (rule bitsOf_cong)
  fix i :: nat assume "i < 5"
  then have "i + k < 32" using assms by simp
  then show "bit (signed_drop_bit k w AND 31) i = bit (drop_bit k w) i"
    using \<open>i < 5\<close>
    by (simp add: mask5 bit_and_iff bit_mask_iff bit_sdrop_low bit_drop_bit_eq)
qed

lemma emit8:
  assumes "k + 8 \<le> 32"
  shows "bitsOf 8 (ucast (signed_drop_bit k (w :: 32 word) AND 255) :: byte) = bitsOf 8 (drop_bit k w)"
proof (rule bitsOf_cong)
  fix i :: nat assume "i < 8"
  then have "i + k < 32" using assms by simp
  then show "bit (ucast (signed_drop_bit k w AND 255) :: byte) i = bit (drop_bit k w) i"
    using \<open>i < 8\<close>
    by (simp add: mask8 bit_ucast_iff bit_and_iff bit_mask_iff bit_sdrop_low bit_drop_bit_eq)
qed

lemma push_byte:
  assumes "bits + 8 \<le> 32"
  shows "bitsOf (bits + 8) (push_bit 8 (buffer :: 32 word) OR ucast (b :: byte))
         = bitsOf bits buffer @ bitsOf 8 b"
proof -
  let ?w = "push_bit 8 buffer OR ucast b :: 32 word"
  have "bitsOf (8 + bits) ?w = bitsOf bits (drop_bit 8 ?w) @ bitsOf 8 ?w" by (rule bitsOf_add)
  moreover have "bitsOf bits (drop_bit 8 ?w) = bitsOf bits buffer"
  proof (rule bitsOf_cong)
    fix i assume "i < bits"
    then show "bit (drop_bit 8 ?w) i = bit buffer i"
      using assms bit_byte_high [of "8 + i" b]
      by (simp add: bit_drop_bit_eq bit_or_iff bit_push_bit_iff bit_ucast_iff)
  qed
  moreover have "bitsOf 8 ?w = bitsOf 8 b"
  proof (rule bitsOf_cong)
    fix i :: nat assume "i < 8"
    then show "bit ?w i = bit b i"
      by (simp add: bit_or_iff bit_push_bit_iff bit_ucast_iff)
  qed
  ultimately show ?thesis by (simp add: add.commute)
qed

lemma push_val:
  assumes "bits + 5 \<le> 32" and "v < 32"
  shows "bitsOf (bits + 5) (push_bit 5 (buffer :: 32 word) OR word_of_int (int v))
         = bitsOf bits buffer @ bitsOf 5 (of_nat v :: 32 word)"
proof -
  let ?v = "of_nat v :: 32 word"
  let ?w = "push_bit 5 buffer OR ?v"
  have "bitsOf (5 + bits) ?w = bitsOf bits (drop_bit 5 ?w) @ bitsOf 5 ?w" by (rule bitsOf_add)
  moreover have "bitsOf bits (drop_bit 5 ?w) = bitsOf bits buffer"
  proof (rule bitsOf_cong)
    fix i assume "i < bits"
    then show "bit (drop_bit 5 ?w) i = bit buffer i"
      using assms bit_small_high [of v "5 + i"]
      by (simp add: bit_drop_bit_eq bit_or_iff bit_push_bit_iff)
  qed
  moreover have "bitsOf 5 ?w = bitsOf 5 ?v"
  proof (rule bitsOf_cong)
    fix i :: nat assume "i < 5"
    then show "bit ?w i = bit ?v i"
      by (simp add: bit_or_iff bit_push_bit_iff)
  qed
  ultimately show ?thesis by (simp add: add.commute)
qed

lemma bitsOf_zero:
  "(\<And>i. i < n \<Longrightarrow> \<not> bit w i) \<Longrightarrow> bitsOf n w = replicate n False"
  by (induction n) simp_all

lemma final5_gen:
  assumes "n + bits = 5"
  shows "bitsOf 5 (push_bit n (buffer :: 32 word) AND 31) = bitsOf bits buffer @ replicate n False"
proof -
  let ?w = "push_bit n buffer AND 31 :: 32 word"
  have "bitsOf (n + bits) ?w = bitsOf bits (drop_bit n ?w) @ bitsOf n ?w"
    by (rule bitsOf_add)
  moreover have "bitsOf bits (drop_bit n ?w) = bitsOf bits buffer"
  proof (rule bitsOf_cong)
    fix i assume "i < bits"
    then show "bit (drop_bit n ?w) i = bit buffer i"
      using assms
      by (simp add: mask5 bit_drop_bit_eq bit_and_iff bit_mask_iff bit_push_bit_iff)
  qed
  moreover have "bitsOf n ?w = replicate n False"
    by (rule bitsOf_zero) (simp add: bit_and_iff bit_push_bit_iff)
  ultimately show ?thesis using assms by simp
qed

lemma final5:
  assumes "0 < bits" and "bits < 5"
  shows "bitsOf 5 (push_bit (5 - bits) (buffer :: 32 word) AND 31)
         = bitsOf bits buffer @ replicate (5 - bits) False"
  using assms by (intro final5_gen) simp

lemma alphabet_distinct: "distinct BASE32_ALPHABET"
  by (simp add: BASE32_ALPHABET_def)

lemma alphabet_length: "length BASE32_ALPHABET = 32"
  by (simp add: BASE32_ALPHABET_def)

lemma alphabet_chars:
  "\<forall>c \<in> set BASE32_ALPHABET.
       (of_char c :: nat) \<notin> {10, 13, 9, 32}
     \<and> upperUnit c = [c]
     \<and> c \<noteq> CHR ''=''
     \<and> \<not> isJsSpace c"
  by (simp add: BASE32_ALPHABET_def upperUnit_def isJsSpace_def)

lemma alphabet_lookup:
  assumes "v < 32"
  shows "BASE32_LOOKUP (of_char (b32char v)) = int v"
proof -
  have "find (\<lambda>i. of_char (BASE32_ALPHABET ! i) = (of_char (BASE32_ALPHABET ! v) :: nat))
          [0..<length BASE32_ALPHABET] = Some v"
    unfolding find_Some_iff
    using assms
    by (intro exI [of _ v])
       (auto simp add: alphabet_length nth_eq_iff_index_eq [OF alphabet_distinct])
  then show ?thesis by (simp add: BASE32_LOOKUP_def b32char_def)
qed

lemma alphabet_facts:
  assumes "v < 32"
  shows "(of_char (b32char v) :: nat) \<noteq> 10" "(of_char (b32char v) :: nat) \<noteq> 13"
    "(of_char (b32char v) :: nat) \<noteq> 9" "(of_char (b32char v) :: nat) \<noteq> 32"
    "BASE32_LOOKUP (of_char (b32char v)) = int v"
    "upperUnit (b32char v) = [b32char v]"
    "b32char v \<noteq> CHR ''=''"
    "\<not> isJsSpace (b32char v)"
proof -
  have "b32char v \<in> set BASE32_ALPHABET"
    unfolding b32char_def using assms by (intro nth_mem) (simp add: alphabet_length)
  with alphabet_chars alphabet_lookup [OF assms]
  show "(of_char (b32char v) :: nat) \<noteq> 10" "(of_char (b32char v) :: nat) \<noteq> 13"
    "(of_char (b32char v) :: nat) \<noteq> 9" "(of_char (b32char v) :: nat) \<noteq> 32"
    "BASE32_LOOKUP (of_char (b32char v)) = int v"
    "upperUnit (b32char v) = [b32char v]"
    "b32char v \<noteq> CHR ''=''"
    "\<not> isJsSpace (b32char v)"
    by auto
qed

lemma and31_less: "unat ((x :: 32 word) AND 31) < 32"
proof -
  have "unat (x AND 31) \<le> unat (31 :: 32 word)"
    by (rule word_and_le1 [THEN word_le_nat_alt [THEN iffD1]])
  then show ?thesis by simp
qed

lemma encEmit_bits:
  assumes "bits \<le> 32"
  shows "\<exists>vs. snd (encEmit buffer bits out) = out @ map b32char vs
            \<and> (\<forall>v \<in> set vs. v < 32)
            \<and> concat (map fiveBits vs) @ bitsOf (fst (encEmit buffer bits out)) buffer
                = bitsOf bits buffer
            \<and> fst (encEmit buffer bits out) < 5"
  using assms
proof (induction buffer bits out rule: encEmit.induct)
  case (1 buffer bits out)
  show ?case
  proof (cases "5 \<le> bits")
    case False
    then show ?thesis
      by (subst (1 2 3) encEmit.simps) (auto intro: exI [of _ "[]"])
  next
    case True
    let ?x = "signed_drop_bit (bits - 5) buffer AND 31"
    let ?out = "out @ [BASE32_ALPHABET ! unat ?x]"
    have eq: "encEmit buffer bits out = encEmit buffer (bits - 5) ?out"
      using True by (subst encEmit.simps) simp
    have le5: "bits - 5 \<le> 32" using "1.prems" by simp
    from "1.IH" [OF True le5] obtain vs where
      o: "snd (encEmit buffer (bits - 5) ?out) = ?out @ map b32char vs"
      and r: "\<forall>v \<in> set vs. v < 32"
      and b: "concat (map fiveBits vs) @ bitsOf (fst (encEmit buffer (bits - 5) ?out)) buffer
                = bitsOf (bits - 5) buffer"
      and l: "fst (encEmit buffer (bits - 5) ?out) < 5"
      by blast
    have five: "fiveBits (unat ?x) = bitsOf 5 (drop_bit (bits - 5) buffer)"
      using True "1.prems" emit5 [of "bits - 5" buffer] by (simp add: fiveBits_def)
    have split: "bitsOf bits buffer = bitsOf 5 (drop_bit (bits - 5) buffer) @ bitsOf (bits - 5) buffer"
      using True bitsOf_add [of "bits - 5" 5 buffer] by simp
    show ?thesis
      unfolding eq
      by (rule exI [of _ "unat ?x # vs"])
         (use o r b l five split and31_less [of "signed_drop_bit (bits - 5) buffer"]
           in \<open>simp add: b32char_def\<close>)
  qed
qed

lemma encLoop_bits:
  assumes "bits < 5"
  shows "\<exists>vs buffer' bits' . encLoop data buffer bits out = (buffer', bits', out @ map b32char vs)
            \<and> (\<forall>v \<in> set vs. v < 32)
            \<and> concat (map fiveBits vs) @ bitsOf bits' buffer'
                = bitsOf bits buffer @ concat (map (bitsOf 8) data)
            \<and> bits' < 5"
  using assms
proof (induction data arbitrary: buffer bits out)
  case Nil
  then show ?case by (auto intro: exI [of _ "[]"])
next
  case (Cons b bs)
  let ?buffer = "push_bit 8 buffer OR ucast b :: 32 word"
  let ?e = "encEmit ?buffer (bits + 8) out"
  from Cons.prems have le: "bits + 8 \<le> 32" by simp
  from encEmit_bits [OF le, of ?buffer out] obtain vs1 where
    o1: "snd ?e = out @ map b32char vs1" and r1: "\<forall>v \<in> set vs1. v < 32"
    and b1: "concat (map fiveBits vs1) @ bitsOf (fst ?e) ?buffer = bitsOf (bits + 8) ?buffer"
    and l1: "fst ?e < 5"
    by blast
  from Cons.IH [OF l1, of ?buffer "snd ?e"] obtain vs2 buffer' bits' where
    o2: "encLoop bs ?buffer (fst ?e) (snd ?e) = (buffer', bits', snd ?e @ map b32char vs2)"
    and r2: "\<forall>v \<in> set vs2. v < 32"
    and b2: "concat (map fiveBits vs2) @ bitsOf bits' buffer'
                = bitsOf (fst ?e) ?buffer @ concat (map (bitsOf 8) bs)"
    and l2: "bits' < 5"
    by blast
  have step: "encLoop (b # bs) buffer bits out = encLoop bs ?buffer (fst ?e) (snd ?e)"
    by (simp add: Let_def case_prod_beta)
  have "concat (map fiveBits (vs1 @ vs2)) @ bitsOf bits' buffer'
      = concat (map fiveBits vs1) @ bitsOf (fst ?e) ?buffer @ concat (map (bitsOf 8) bs)"
    using b2 by simp
  also have "\<dots> = bitsOf (bits + 8) ?buffer @ concat (map (bitsOf 8) bs)"
    using b1 by (metis append_assoc)
  also have "\<dots> = bitsOf bits buffer @ concat (map (bitsOf 8) (b # bs))"
    using push_byte [OF le, of buffer b] by simp
  finally have bits_eq: "concat (map fiveBits (vs1 @ vs2)) @ bitsOf bits' buffer'
      = bitsOf bits buffer @ concat (map (bitsOf 8) (b # bs))" .
  show ?case
    unfolding step o2
    by (intro exI [of _ "vs1 @ vs2"] exI [of _ buffer'] exI [of _ bits'])
       (use o1 r1 r2 l2 bits_eq in auto)
qed

lemma base32EncodeBytes_bits:
  "\<exists>vs pad. base32EncodeBytes data = map b32char vs
      \<and> (\<forall>v \<in> set vs. v < 32)
      \<and> concat (map fiveBits vs) = concat (map (bitsOf 8) data) @ replicate pad False
      \<and> pad < 5"
proof -
  from encLoop_bits [of 0 "data" 0 "[]"] obtain vs buffer' bits' where
    o: "encLoop data 0 0 [] = (buffer', bits', map b32char vs)"
    and r: "\<forall>v \<in> set vs. v < 32"
    and b: "concat (map fiveBits vs) @ bitsOf bits' buffer' = concat (map (bitsOf 8) data)"
    and l: "bits' < 5"
    by auto
  show ?thesis
  proof (cases "0 < bits'")
    case False
    then have "bits' = 0" by simp
    then show ?thesis
      using o r b by (intro exI [of _ vs] exI [of _ 0]) (simp add: base32EncodeBytes_def)
  next
    case True
    let ?x = "push_bit (5 - bits') buffer' AND 31"
    have five: "fiveBits (unat ?x) = bitsOf bits' buffer' @ replicate (5 - bits') False"
      using final5 [OF True l, of buffer'] by (simp add: fiveBits_def)
    have "concat (map fiveBits (vs @ [unat ?x]))
        = concat (map (bitsOf 8) data) @ replicate (5 - bits') False"
      using b five by (metis (no_types, lifting) append_assoc append_Nil2 concat.simps concat_append
          list.simps(8,9) map_append)
    then show ?thesis
      using o r True and31_less [of "push_bit (5 - bits') buffer'"]
      by (intro exI [of _ "vs @ [unat ?x]"] exI [of _ "5 - bits'"])
         (simp add: base32EncodeBytes_def b32char_def)
  qed
qed

lemma decEmit_bits:
  assumes "bits \<le> 32"
  shows "\<exists>bs. snd (decEmit buffer bits out) = out @ bs
            \<and> concat (map (bitsOf 8) bs) @ bitsOf (fst (decEmit buffer bits out)) buffer
                = bitsOf bits buffer
            \<and> fst (decEmit buffer bits out) < 8"
  using assms
proof (induction buffer bits out rule: decEmit.induct)
  case (1 buffer bits out)
  show ?case
  proof (cases "8 \<le> bits")
    case False
    then show ?thesis
      by (subst (1 2 3) decEmit.simps) (auto intro: exI [of _ "[]"])
  next
    case True
    let ?b = "ucast (signed_drop_bit (bits - 8) buffer AND 255) :: byte"
    let ?out = "out @ [?b]"
    have eq: "decEmit buffer bits out = decEmit buffer (bits - 8) ?out"
      using True by (subst decEmit.simps) simp
    have le8: "bits - 8 \<le> 32" using "1.prems" by simp
    from "1.IH" [OF True le8] obtain bs where
      o: "snd (decEmit buffer (bits - 8) ?out) = ?out @ bs"
      and b: "concat (map (bitsOf 8) bs) @ bitsOf (fst (decEmit buffer (bits - 8) ?out)) buffer
                = bitsOf (bits - 8) buffer"
      and l: "fst (decEmit buffer (bits - 8) ?out) < 8"
      by blast
    have eight: "bitsOf 8 ?b = bitsOf 8 (drop_bit (bits - 8) buffer)"
      using True "1.prems" emit8 [of "bits - 8" buffer] by simp
    have split: "bitsOf bits buffer = bitsOf 8 (drop_bit (bits - 8) buffer) @ bitsOf (bits - 8) buffer"
      using True bitsOf_add [of "bits - 8" 8 buffer] by simp
    show ?thesis
      unfolding eq
      by (rule exI [of _ "?b # bs"]) (use o b l eight split in simp)
  qed
qed

lemma decLoop_bits:
  assumes "\<forall>v \<in> set vs. v < 32" and "bits < 8"
  shows "\<exists>out' rest. decLoop (map b32char vs) buffer bits out = Inr out'
            \<and> length rest < 8
            \<and> concat (map (bitsOf 8) out') @ rest
                = concat (map (bitsOf 8) out) @ bitsOf bits buffer @ concat (map fiveBits vs)"
  using assms
proof (induction vs arbitrary: buffer bits out)
  case Nil
  then show ?case
    by (intro exI [of _ out] exI [of _ "bitsOf bits buffer"]) (simp add: length_bitsOf)
next
  case (Cons v vs)
  from Cons.prems have v: "v < 32" and vs: "\<forall>v \<in> set vs. v < 32" by simp_all
  let ?buffer = "push_bit 5 buffer OR word_of_int (int v) :: 32 word"
  let ?d = "decEmit ?buffer (bits + 5) out"
  from Cons.prems have le: "bits + 5 \<le> 32" by simp
  from decEmit_bits [OF le, of ?buffer out] obtain bs where
    o1: "snd ?d = out @ bs"
    and b1: "concat (map (bitsOf 8) bs) @ bitsOf (fst ?d) ?buffer = bitsOf (bits + 5) ?buffer"
    and l1: "fst ?d < 8"
    by blast
  from Cons.IH [OF vs l1, of ?buffer "snd ?d"] obtain out' rest where
    o2: "decLoop (map b32char vs) ?buffer (fst ?d) (snd ?d) = Inr out'"
    and l2: "length rest < 8"
    and b2: "concat (map (bitsOf 8) out') @ rest
        = concat (map (bitsOf 8) (snd ?d)) @ bitsOf (fst ?d) ?buffer @ concat (map fiveBits vs)"
    by blast
  have step: "decLoop (map b32char (v # vs)) buffer bits out
      = decLoop (map b32char vs) ?buffer (fst ?d) (snd ?d)"
    using alphabet_facts [OF v] by (simp add: Let_def case_prod_beta)
  have push: "bitsOf (bits + 5) ?buffer = bitsOf bits buffer @ fiveBits v"
    using push_val [OF le v, of buffer] by (simp add: fiveBits_def)
  have "concat (map (bitsOf 8) out') @ rest
      = concat (map (bitsOf 8) out) @ (concat (map (bitsOf 8) bs) @ bitsOf (fst ?d) ?buffer)
          @ concat (map fiveBits vs)"
    using b2 o1 by simp
  also have "\<dots> = concat (map (bitsOf 8) out) @ bitsOf bits buffer @ concat (map fiveBits (v # vs))"
    unfolding b1 push by simp
  finally show ?case
    unfolding step using o2 l2 by blast
qed

lemma length_byteBits: "length (concat (map (bitsOf 8) (bs :: bytes))) = 8 * length bs"
  by (induction bs) (simp_all add: length_bitsOf)

lemma byteBits_inj:
  "concat (map (bitsOf 8) (xs :: bytes)) = concat (map (bitsOf 8) ys) \<Longrightarrow> xs = ys"
proof (induction xs arbitrary: ys)
  case Nil
  from arg_cong [OF Nil.prems, of length] have "8 * length ys = 0"
    unfolding length_byteBits by simp
  then show ?case by simp
next
  case (Cons x xs)
  from Cons.prems have "8 * length ys = 8 * length (x # xs)"
    using length_byteBits [of ys] length_byteBits [of "x # xs"] by metis
  then obtain y ys' where ys: "ys = y # ys'" by (cases ys) auto
  from Cons.prems have "bitsOf 8 x @ concat (map (bitsOf 8) xs)
      = bitsOf 8 y @ concat (map (bitsOf 8) ys')"
    by (simp add: ys)
  then have "bitsOf 8 x = bitsOf 8 y" "concat (map (bitsOf 8) xs) = concat (map (bitsOf 8) ys')"
    by (simp_all add: length_bitsOf)
  then show ?case using Cons.IH bitsOf_inj ys by blast
qed

lemma toUpperCase_alphabet:
  "\<forall>v \<in> set vs. v < 32 \<Longrightarrow> toUpperCase (map b32char vs) = map b32char vs"
  by (induction vs) (simp_all add: toUpperCase_def alphabet_facts)

lemma dropWhile_none: "\<forall>c \<in> set s. \<not> P c \<Longrightarrow> dropWhile P s = s"
  by (cases s) simp_all

lemma base32_roundtrip: "base32DecodeToBytes (base32EncodeBytes data) = Inr data"
proof -
  from base32EncodeBytes_bits [of "data"] obtain vs pad where
    e: "base32EncodeBytes data = map b32char vs"
    and r: "\<forall>v \<in> set vs. v < 32"
    and b: "concat (map fiveBits vs) = concat (map (bitsOf 8) data) @ replicate pad False"
    and p: "pad < 5"
    by blast
  have noeq: "\<forall>c \<in> set (rev (map b32char vs)). \<not> c = CHR ''=''"
    using r alphabet_facts(7) by auto
  have strip: "rev (dropWhile (\<lambda>c. c = CHR ''='') (rev (toUpperCase (map b32char vs))))
      = map b32char vs"
    unfolding toUpperCase_alphabet [OF r] dropWhile_none [OF noeq] by simp
  from decLoop_bits [OF r, of 0 0 "[]"] obtain out' rest where
    d: "decLoop (map b32char vs) 0 0 [] = Inr out'"
    and l: "length rest < 8"
    and c: "concat (map (bitsOf 8) out') @ rest = concat (map fiveBits vs)"
    by auto
  from c b have eq: "concat (map (bitsOf 8) out') @ rest
      = concat (map (bitsOf 8) data) @ replicate pad False"
    by simp
  then have "length (concat (map (bitsOf 8) out') @ rest)
      = length (concat (map (bitsOf 8) data) @ replicate pad False)"
    by simp
  then have "8 * length out' + length rest = 8 * length data + pad"
    by (simp add: length_byteBits)
  with l p have "length out' = length data" by arith
  then have "length (concat (map (bitsOf 8) out')) = length (concat (map (bitsOf 8) data))"
    by (simp add: length_byteBits)
  with eq have "concat (map (bitsOf 8) out') = concat (map (bitsOf 8) data)"
    by simp
  then have "out' = data" by (rule byteBits_inj)
  then show ?thesis
    using d by (simp add: base32DecodeToBytes_def e strip)
qed

lemma base32_no_space: "\<forall>c \<in> set (base32EncodeBytes body). \<not> isJsSpace c"
proof -
  from base32EncodeBytes_bits [of body] obtain vs where
    "base32EncodeBytes body = map b32char vs" and "\<forall>v \<in> set vs. v < 32"
    by blast
  then show ?thesis by (auto simp add: alphabet_facts(8))
qed

lemma dropWhile_hd: "xs \<noteq> [] \<Longrightarrow> \<not> P (hd xs) \<Longrightarrow> dropWhile P xs = xs"
  by (cases xs) simp_all

lemma trim_clean:
  assumes "s \<noteq> []" and "\<not> isJsSpace (hd s)" and "\<not> isJsSpace (last s)"
  shows "trim s = s"
proof -
  have a: "dropWhile isJsSpace s = s"
    using assms(1,2) by (rule dropWhile_hd)
  have "hd (rev s) = last s" using assms(1) by (simp add: hd_rev)
  then have b: "dropWhile isJsSpace (rev s) = rev s"
    using assms(1,3) by (intro dropWhile_hd) simp_all
  show ?thesis by (simp add: trim_def a b)
qed

lemma trim_code:
  assumes "p \<noteq> []" and "\<not> isJsSpace (hd p)" and "\<not> isJsSpace (last p)"
  shows "trim (p @ base32EncodeBytes body) = p @ base32EncodeBytes body"
proof (rule trim_clean)
  show "p @ base32EncodeBytes body \<noteq> []" using assms(1) by simp
  show "\<not> isJsSpace (hd (p @ base32EncodeBytes body))" using assms(1,2) by simp
  show "\<not> isJsSpace (last (p @ base32EncodeBytes body))"
    using assms(3) base32_no_space [of body] by (cases "base32EncodeBytes body = []") simp_all
qed

lemma decode_raw:
  "decodeSignal pf (SIGNAL_PREFIX_RAW_B32 @ base32EncodeBytes body) = readJson pf body"
proof -
  have t: "trim (SIGNAL_PREFIX_RAW_B32 @ base32EncodeBytes body)
      = SIGNAL_PREFIX_RAW_B32 @ base32EncodeBytes body"
    by (rule trim_code) (simp_all add: SIGNAL_PREFIX_RAW_B32_def isJsSpace_def)
  show ?thesis
    unfolding decodeSignal_def t
    by (simp add: SIGNAL_PREFIX_RAW_B32_def SIGNAL_PREFIX_GZIP_B32_def startsWith_def
        base32_roundtrip)
qed

lemma decode_gzip:
  "decodeSignal pf (SIGNAL_PREFIX_GZIP_B32 @ base32EncodeBytes body)
     = (if hasStreamCompression pf then gunzipJson pf body else Inl CannotDecompress)"
proof -
  have t: "trim (SIGNAL_PREFIX_GZIP_B32 @ base32EncodeBytes body)
      = SIGNAL_PREFIX_GZIP_B32 @ base32EncodeBytes body"
    by (rule trim_code) (simp_all add: SIGNAL_PREFIX_GZIP_B32_def isJsSpace_def)
  show ?thesis
    unfolding decodeSignal_def t
    by (simp add: SIGNAL_PREFIX_GZIP_B32_def startsWith_def base32_roundtrip)
qed

lemma rewrite_unchanged:
  "\<not> isValidIpv4 v \<Longrightarrow> rewriteMdnsHostCandidatesInSdp sdp (Some v) = sdp"
proof -
  assume "\<not> isValidIpv4 v"
  then have "\<not> isValidIpv4 (trim v)" by (simp add: isValidIpv4_trim)
  then have "normalizeLanIpOverride (Some v) = []"
    by (simp add: normalizeLanIpOverride_def Let_def)
  then show ?thesis by (simp add: rewriteMdnsHostCandidatesInSdp_def Let_def)
qed

lemma readJson_document:
  "responseJson pf body = Some (JsonObj [(''t'', ty), (''s'', sd), (''c'', c)]) \<Longrightarrow>
     readJson pf body = Inr (Some ty, Some sd, Some c)"
  by (simp add: readJson_def jsonMember_def)

lemma signalEnvelope_document:
  "signalEnvelope cfg desc =
     JsonObj [(''t'', JsonStr (descType desc)),
              (''s'', JsonStr (if useLanIpOverride cfg
                               then rewriteMdnsHostCandidatesInSdp (descSdp desc) (Some (lanIpOverride cfg))
                               else descSdp desc)),
              (''c'', JsonObj [(''stun'', JsonNum (if useStun cfg then 1 else 0)),
                               (''fileUnordered'', JsonNum (if useUnorderedFileChannel cfg then 1 else 0)),
                               (''fast'', JsonNum (if useFastTransfer cfg then 1 else 0))])]"
  by (simp add: signalEnvelope_def signalSdp_def signalCfg_def oneOrZero_def)

text \<open>
  The round trip for a payload \<open>body\<close> that the decoder's platform parses to the
  document \<open>JsonObj [(t, ty), (s, sd), (c, c)]\<close>.
\<close>

lemma encode_decode:
  assumes "descType desc \<noteq> []" and "descSdp desc \<noteq> []"
    and "signalPayload tx cfg desc = body"
    and "responseJson rx body = Some (JsonObj [(''t'', ty), (''s'', sd), (''c'', c)])"
    and "\<forall>z. gzip tx body = Some z \<longrightarrow> gunzip rx z = Some body"
    and "useSignalCompression cfg \<and> hasStreamCompression tx \<and> gzip tx body \<noteq> None
           \<longrightarrow> hasStreamCompression rx"
  shows "\<exists>code. encodeSignal tx cfg (Some desc) = Inr code
          \<and> decodeSignal rx code = Inr (Some ty, Some sd, Some c)
          \<and> startsWith code
               (if useSignalCompression cfg \<and> hasStreamCompression tx \<and> gzip tx body \<noteq> None
                then ''SHR2:'' else ''SHR3:'')"
proof -
  have raw: "readJson rx body = Inr (Some ty, Some sd, Some c)"
    using assms(4) by (rule readJson_document)
  show ?thesis
  proof (cases "useSignalCompression cfg \<and> hasStreamCompression tx \<and> gzip tx body \<noteq> None")
    case True
    then obtain z where z: "gzip tx body = Some z" by blast
    with assms(5) have "gunzip rx z = Some body" by blast
    then have gz: "gunzipJson rx z = Inr (Some ty, Some sd, Some c)"
      by (simp add: gunzipJson_def raw)
    from assms(6) True have can: "hasStreamCompression rx" by blast
    have enc: "encodeSignal tx cfg (Some desc) = Inr (SIGNAL_PREFIX_GZIP_B32 @ base32EncodeBytes z)"
      using assms(1,2,3) True z by (simp add: encodeSignal_def Let_def)
    have dec: "decodeSignal rx (SIGNAL_PREFIX_GZIP_B32 @ base32EncodeBytes z)
        = Inr (Some ty, Some sd, Some c)"
      using can gz by (simp add: decode_gzip)
    have pre: "startsWith (SIGNAL_PREFIX_GZIP_B32 @ base32EncodeBytes z) ''SHR2:''"
      by (simp add: startsWith_def SIGNAL_PREFIX_GZIP_B32_def)
    show ?thesis
      using True enc dec pre by simp
  next
    case False
    have enc: "encodeSignal tx cfg (Some desc)
        = Inr (SIGNAL_PREFIX_RAW_B32 @ base32EncodeBytes body)"
      using assms(1,2,3) False by (auto simp add: encodeSignal_def Let_def)
    have dec: "decodeSignal rx (SIGNAL_PREFIX_RAW_B32 @ base32EncodeBytes body)
        = Inr (Some ty, Some sd, Some c)"
      using raw by (simp add: decode_raw)
    have pre: "startsWith (SIGNAL_PREFIX_RAW_B32 @ base32EncodeBytes body) ''SHR3:''"
      by (simp add: startsWith_def SIGNAL_PREFIX_RAW_B32_def)
    have sel: "(if useSignalCompression cfg \<and> hasStreamCompression tx \<and> gzip tx body \<noteq> None
                then ''SHR2:'' else ''SHR3:'') = ''SHR3:''"
      by (simp only: False if_False)
    show ?thesis
      unfolding sel using enc dec pre by blast
  qed
qed

text \<open>
  C2, as the code has it. For a session description with a type and a description text,
  \<open>encodeSignal\<close> returns a code, prefixed \<open>SHR2:\<close> when compression is enabled, available
  and succeeds, and \<open>SHR3:\<close> otherwise, and \<open>decodeSignal\<close> returns from that code the type,
  the description text \<open>sent\<close> and the \<open>cfg\<close> object \<open>c\<close> of the three flags. The text
  \<open>sent\<close> is the session description's text when the LAN override is disabled, and
  otherwise the result of rewriting its host candidates; it is the session description's
  own text when the override is disabled or is not a valid IPv4 address. What is assumed
  of the platforms (\<open>tx\<close> the encoder's, \<open>rx\<close> the decoder's) is stated on the document
  \<open>doc\<close> with the members \<open>t\<close>, \<open>s\<close>, \<open>c\<close> and on the bytes \<open>body\<close> of its text: the
  decoder parses \<open>body\<close> to \<open>doc\<close>, its decompression inverts the encoder's compression of
  \<open>body\<close>, and it has the compression streams if the encoder compressed.
\<close>

theorem signal_roundtrip:
  "descType desc \<noteq> [] \<and> descSdp desc \<noteq> []
   \<and> sent = (if useLanIpOverride cfg
             then rewriteMdnsHostCandidatesInSdp (descSdp desc) (Some (lanIpOverride cfg))
             else descSdp desc)
   \<and> c = JsonObj [(''stun'', JsonNum (if useStun cfg then 1 else 0)),
                   (''fileUnordered'', JsonNum (if useUnorderedFileChannel cfg then 1 else 0)),
                   (''fast'', JsonNum (if useFastTransfer cfg then 1 else 0))]
   \<and> doc = JsonObj [(''t'', JsonStr (descType desc)), (''s'', JsonStr sent), (''c'', c)]
   \<and> body = utf8 tx (jsonStringify tx doc)
   \<and> responseJson rx body = Some doc
   \<and> (\<forall>z. gzip tx body = Some z \<longrightarrow> gunzip rx z = Some body)
   \<and> (useSignalCompression cfg \<and> hasStreamCompression tx \<and> gzip tx body \<noteq> None
         \<longrightarrow> hasStreamCompression rx)
   \<longrightarrow> (\<exists>code. encodeSignal tx cfg (Some desc) = Inr code
          \<and> decodeSignal rx code = Inr (Some (JsonStr (descType desc)), Some (JsonStr sent), Some c)
          \<and> startsWith code
               (if useSignalCompression cfg \<and> hasStreamCompression tx \<and> gzip tx body \<noteq> None
                then ''SHR2:'' else ''SHR3:''))
       \<and> (\<not> useLanIpOverride cfg \<or> \<not> isValidIpv4 (lanIpOverride cfg) \<longrightarrow> sent = descSdp desc)"
proof
  assume h: "descType desc \<noteq> [] \<and> descSdp desc \<noteq> []
   \<and> sent = (if useLanIpOverride cfg
             then rewriteMdnsHostCandidatesInSdp (descSdp desc) (Some (lanIpOverride cfg))
             else descSdp desc)
   \<and> c = JsonObj [(''stun'', JsonNum (if useStun cfg then 1 else 0)),
                   (''fileUnordered'', JsonNum (if useUnorderedFileChannel cfg then 1 else 0)),
                   (''fast'', JsonNum (if useFastTransfer cfg then 1 else 0))]
   \<and> doc = JsonObj [(''t'', JsonStr (descType desc)), (''s'', JsonStr sent), (''c'', c)]
   \<and> body = utf8 tx (jsonStringify tx doc)
   \<and> responseJson rx body = Some doc
   \<and> (\<forall>z. gzip tx body = Some z \<longrightarrow> gunzip rx z = Some body)
   \<and> (useSignalCompression cfg \<and> hasStreamCompression tx \<and> gzip tx body \<noteq> None
         \<longrightarrow> hasStreamCompression rx)"
  then have ne: "descType desc \<noteq> []" "descSdp desc \<noteq> []"
    and sent: "sent = (if useLanIpOverride cfg
             then rewriteMdnsHostCandidatesInSdp (descSdp desc) (Some (lanIpOverride cfg))
             else descSdp desc)"
    and c: "c = JsonObj [(''stun'', JsonNum (if useStun cfg then 1 else 0)),
                   (''fileUnordered'', JsonNum (if useUnorderedFileChannel cfg then 1 else 0)),
                   (''fast'', JsonNum (if useFastTransfer cfg then 1 else 0))]"
    and doc: "doc = JsonObj [(''t'', JsonStr (descType desc)), (''s'', JsonStr sent), (''c'', c)]"
    and body: "body = utf8 tx (jsonStringify tx doc)"
    and parse: "responseJson rx body = Some doc"
    and unzip: "\<forall>z. gzip tx body = Some z \<longrightarrow> gunzip rx z = Some body"
    and can: "useSignalCompression cfg \<and> hasStreamCompression tx \<and> gzip tx body \<noteq> None
         \<longrightarrow> hasStreamCompression rx"
    by blast+
  have env: "signalEnvelope cfg desc = doc"
    unfolding signalEnvelope_document doc c sent ..
  have pay: "signalPayload tx cfg desc = body"
    by (simp add: signalPayload_def env body)
  have parse': "responseJson rx body
      = Some (JsonObj [(''t'', JsonStr (descType desc)), (''s'', JsonStr sent), (''c'', c)])"
    using parse doc by simp
  have trip: "\<exists>code. encodeSignal tx cfg (Some desc) = Inr code
          \<and> decodeSignal rx code = Inr (Some (JsonStr (descType desc)), Some (JsonStr sent), Some c)
          \<and> startsWith code
               (if useSignalCompression cfg \<and> hasStreamCompression tx \<and> gzip tx body \<noteq> None
                then ''SHR2:'' else ''SHR3:'')"
    using ne pay parse' unzip can by (rule encode_decode)
  have same: "\<not> useLanIpOverride cfg \<or> \<not> isValidIpv4 (lanIpOverride cfg) \<longrightarrow> sent = descSdp desc"
    by (simp add: sent rewrite_unchanged)
  from trip same
  show "(\<exists>code. encodeSignal tx cfg (Some desc) = Inr code
          \<and> decodeSignal rx code = Inr (Some (JsonStr (descType desc)), Some (JsonStr sent), Some c)
          \<and> startsWith code
               (if useSignalCompression cfg \<and> hasStreamCompression tx \<and> gzip tx body \<noteq> None
                then ''SHR2:'' else ''SHR3:''))
       \<and> (\<not> useLanIpOverride cfg \<or> \<not> isValidIpv4 (lanIpOverride cfg) \<longrightarrow> sent = descSdp desc)"
    by (rule conjI)
qed

lemma lan_envelope: "signalEnvelope lanConfig lanDescription = lanDocument"
  by (simp add: signalEnvelope_def signalSdp_def signalCfg_def oneOrZero_def lanConfig_def
      lanDescription_def lanDocument_def sdp_eval)

text \<open>
  C2, as the claim states it, fails when the LAN override is enabled and valid: the
  encoder rewrites the host candidates before serialising, so decoding the code of the
  description \<open>... 6f2a.local ...\<close> under the override \<open>192.168.1.7\<close> returns the
  description \<open>... 192.168.1.7 ...\<close>, not the one that was encoded.
\<close>

theorem signal_description_rewritten_counterexample:
  "useLanIpOverride lanConfig
   \<and> isValidIpv4 (lanIpOverride lanConfig)
   \<and> descType lanDescription = ''offer''
   \<and> descSdp lanDescription = ''a=candidate:1 1 udp 2113937151 6f2a.local 54321 typ host''
   \<and> encodeSignal (stubPlatform lanDocument lanText) lanConfig (Some lanDescription)
       = Inr (''SHR3:'' @ base32EncodeBytes (asBytes lanText))
   \<and> decodeSignal (stubPlatform lanDocument lanText)
         (''SHR3:'' @ base32EncodeBytes (asBytes lanText))
       = Inr (Some (JsonStr ''offer''),
              Some (JsonStr ''a=candidate:1 1 udp 2113937151 192.168.1.7 54321 typ host''),
              Some (JsonObj [(''stun'', JsonNum 1), (''fileUnordered'', JsonNum 1),
                             (''fast'', JsonNum 1)]))
   \<and> ''a=candidate:1 1 udp 2113937151 192.168.1.7 54321 typ host'' \<noteq> descSdp lanDescription"
proof -
  have cfg: "useLanIpOverride lanConfig" "isValidIpv4 (lanIpOverride lanConfig)"
    by (simp_all add: lanConfig_def sdp_eval)
  have desc: "descType lanDescription = ''offer''"
    "descSdp lanDescription = ''a=candidate:1 1 udp 2113937151 6f2a.local 54321 typ host''"
    "''a=candidate:1 1 udp 2113937151 192.168.1.7 54321 typ host'' \<noteq> descSdp lanDescription"
    by (simp_all add: lanDescription_def)
  have pay: "signalPayload (stubPlatform lanDocument lanText) lanConfig lanDescription
      = asBytes lanText"
    by (simp add: signalPayload_def lan_envelope stubPlatform_def)
  have enc: "encodeSignal (stubPlatform lanDocument lanText) lanConfig (Some lanDescription)
       = Inr (''SHR3:'' @ base32EncodeBytes (asBytes lanText))"
  proof -
    have "\<not> useSignalCompression lanConfig" by (simp add: lanConfig_def)
    moreover have "descType lanDescription \<noteq> []" "descSdp lanDescription \<noteq> []"
      by (simp_all add: lanDescription_def)
    ultimately show ?thesis
      by (simp add: encodeSignal_def Let_def pay SIGNAL_PREFIX_RAW_B32_def)
  qed
  have "decodeSignal (stubPlatform lanDocument lanText)
         (SIGNAL_PREFIX_RAW_B32 @ base32EncodeBytes (asBytes lanText))
       = readJson (stubPlatform lanDocument lanText) (asBytes lanText)"
    by (rule decode_raw)
  also have "\<dots> = Inr (Some (JsonStr ''offer''),
              Some (JsonStr ''a=candidate:1 1 udp 2113937151 192.168.1.7 54321 typ host''),
              Some (JsonObj [(''stun'', JsonNum 1), (''fileUnordered'', JsonNum 1),
                             (''fast'', JsonNum 1)]))"
    by (simp add: readJson_def stubPlatform_def lanDocument_def jsonMember_def)
  finally have dec: "decodeSignal (stubPlatform lanDocument lanText)
         (''SHR3:'' @ base32EncodeBytes (asBytes lanText))
       = Inr (Some (JsonStr ''offer''),
              Some (JsonStr ''a=candidate:1 1 udp 2113937151 192.168.1.7 54321 typ host''),
              Some (JsonObj [(''stun'', JsonNum 1), (''fileUnordered'', JsonNum 1),
                             (''fast'', JsonNum 1)]))"
    by (simp add: SIGNAL_PREFIX_RAW_B32_def)
  show ?thesis
    using cfg desc enc dec by blast
qed

theorem signal_roundtrip_witness:
  "descType exampleDescription \<noteq> [] \<and> descSdp exampleDescription \<noteq> []
   \<and> useSignalCompression exampleConfig
   \<and> hasStreamCompression (stubPlatform exampleDocument exampleText)
   \<and> \<not> useLanIpOverride exampleConfig
   \<and> responseJson (stubPlatform exampleDocument exampleText) (asBytes exampleText)
       = Some exampleDocument
   \<and> gzip (stubPlatform exampleDocument exampleText) (asBytes exampleText) \<noteq> None
   \<and> (\<exists>code. encodeSignal (stubPlatform exampleDocument exampleText) exampleConfig
                 (Some exampleDescription) = Inr code
          \<and> decodeSignal (stubPlatform exampleDocument exampleText) code
              = Inr (Some (JsonStr ''offer''), Some (JsonStr ''v=0''),
                     Some (JsonObj [(''stun'', JsonNum 1), (''fileUnordered'', JsonNum 1),
                                    (''fast'', JsonNum 1)]))
          \<and> startsWith code ''SHR2:'')
   \<and> descSdp exampleDescription = ''v=0''"
proof -
  let ?pf = "stubPlatform exampleDocument exampleText"
  let ?c = "JsonObj [(''stun'', JsonNum 1), (''fileUnordered'', JsonNum 1), (''fast'', JsonNum 1)]"
  have h1: "descType exampleDescription \<noteq> []" "descSdp exampleDescription \<noteq> []"
    by (simp_all add: exampleDescription_def)
  have v: "descType exampleDescription = ''offer''" "descSdp exampleDescription = ''v=0''"
    by (simp_all add: exampleDescription_def)
  have f: "useSignalCompression exampleConfig" "hasStreamCompression ?pf"
    "\<not> useLanIpOverride exampleConfig"
    by (simp_all add: exampleConfig_def stubPlatform_def hasStreamCompression_def)
  have s: "''v=0'' = (if useLanIpOverride exampleConfig
             then rewriteMdnsHostCandidatesInSdp (descSdp exampleDescription)
                    (Some (lanIpOverride exampleConfig))
             else descSdp exampleDescription)"
    by (simp add: exampleConfig_def exampleDescription_def)
  have c: "?c = JsonObj [(''stun'', JsonNum (if useStun exampleConfig then 1 else 0)),
                   (''fileUnordered'', JsonNum (if useUnorderedFileChannel exampleConfig then 1 else 0)),
                   (''fast'', JsonNum (if useFastTransfer exampleConfig then 1 else 0))]"
    by (simp add: exampleConfig_def)
  have d: "exampleDocument = JsonObj [(''t'', JsonStr (descType exampleDescription)),
                                       (''s'', JsonStr ''v=0''), (''c'', ?c)]"
    by (simp add: exampleDocument_def exampleDescription_def)
  have b: "asBytes exampleText = utf8 ?pf (jsonStringify ?pf exampleDocument)"
    by (simp add: stubPlatform_def)
  have p: "responseJson ?pf (asBytes exampleText) = Some exampleDocument"
    by (simp add: stubPlatform_def)
  have z: "\<forall>z. gzip ?pf (asBytes exampleText) = Some z \<longrightarrow> gunzip ?pf z = Some (asBytes exampleText)"
    by (auto simp add: stubPlatform_def)
  have g: "gzip ?pf (asBytes exampleText) \<noteq> None"
    by (simp add: stubPlatform_def)
  have sel: "(if useSignalCompression exampleConfig \<and> hasStreamCompression ?pf
                 \<and> gzip ?pf (asBytes exampleText) \<noteq> None
              then ''SHR2:'' else ''SHR3:'') = ''SHR2:''"
    using f g by simp
  note rt = signal_roundtrip [where desc = exampleDescription and cfg = exampleConfig
      and tx = ?pf and rx = ?pf and sent = "''v=0''" and c = ?c and doc = exampleDocument
      and body = "asBytes exampleText"]
  from rt h1 s c d b p z f have
    "\<exists>code. encodeSignal ?pf exampleConfig (Some exampleDescription) = Inr code
        \<and> decodeSignal ?pf code
            = Inr (Some (JsonStr (descType exampleDescription)), Some (JsonStr ''v=0''), Some ?c)
        \<and> startsWith code
             (if useSignalCompression exampleConfig \<and> hasStreamCompression ?pf
                 \<and> gzip ?pf (asBytes exampleText) \<noteq> None
              then ''SHR2:'' else ''SHR3:'')"
    by blast
  then have r: "\<exists>code. encodeSignal ?pf exampleConfig (Some exampleDescription) = Inr code
        \<and> decodeSignal ?pf code = Inr (Some (JsonStr ''offer''), Some (JsonStr ''v=0''), Some ?c)
        \<and> startsWith code ''SHR2:''"
    unfolding sel v .
  show ?thesis
    using h1 f p g r v(2) by blast
qed

end
